theory Spec2Isabelle
  imports Main "HOL-Library.Sublist"
begin

section \<open>Data model (src/types.ts)\<close>

text \<open>
  The interface \<open>Todo\<close>. The fields \<open>id\<close> and \<open>text\<close> are called \<open>todo_id\<close> and
  \<open>todo_text\<close> here, the other fields keep their names. An optional field that is
  missing or holds \<open>undefined\<close> is \<open>None\<close>. \<open>createdAt\<close> holds the value of
  \<open>Date.now()\<close>, a whole number of milliseconds.
\<close>

record Todo =
  todo_id :: string
  todo_text :: string
  completed :: bool
  createdAt :: int
  dueDate :: "string option"
  dueTime :: "string option"
  notified :: "bool option"

datatype FilterType = All | Active | Completed

text \<open>
  \<open>TodoUpdatePayload = Partial<Omit<Todo, 'id' | 'createdAt'>>\<close>: every key but \<open>id\<close>
  and \<open>createdAt\<close>, each one present or not. \<open>None\<close> is a key that is not in the
  object. For the three optional fields of \<open>Todo\<close> a key that is present may hold
  \<open>undefined\<close>, which is \<open>Some None\<close>.
\<close>

record TodoUpdatePayload =
  upd_text :: "string option"
  upd_completed :: "bool option"
  upd_dueDate :: "string option option"
  upd_dueTime :: "string option option"
  upd_notified :: "bool option option"

text \<open>The options object handed to \<open>new Notification(title, options)\<close>.\<close>

record Notification =
  title :: string
  body :: string
  icon :: string

section \<open>JavaScript values\<close>

text \<open>Truthiness of an optional string: \<open>undefined\<close> and the empty string are falsy.\<close>

definition truthy_string :: "string option \<Rightarrow> bool" where
  "truthy_string v = (case v of None \<Rightarrow> False | Some s \<Rightarrow> s \<noteq> [])"

text \<open>Truthiness of an optional boolean: \<open>undefined\<close> is falsy.\<close>

definition truthy_bool :: "bool option \<Rightarrow> bool" where
  "truthy_bool v = (case v of None \<Rightarrow> False | Some b \<Rightarrow> b)"

text \<open>A value inside a template literal: \<open>undefined\<close> prints as its name.\<close>

definition template_string :: "string option \<Rightarrow> string" where
  "template_string v = (case v of None \<Rightarrow> ''undefined'' | Some s \<Rightarrow> s)"

text \<open>
  A \<open>Date\<close> is its time value in milliseconds, \<open>None\<close> for an invalid date (time value
  \<open>NaN\<close>). \<open>now >= dueDateTime\<close> compares the two time values; \<open>now\<close> comes from
  \<open>new Date()\<close> and is always valid, and a comparison with \<open>NaN\<close> is false.
\<close>

definition date_ge :: "int \<Rightarrow> int option \<Rightarrow> bool" where
  "date_ge now dueDateTime = (case dueDateTime of None \<Rightarrow> False | Some d \<Rightarrow> d \<le> now)"

section \<open>Task repository (src/App.tsx)\<close>

text \<open>
  Each operation is the function handed to \<open>setTodos\<close>, from the previous collection
  to the next one. \<open>addTodo\<close> takes the results of \<open>crypto.randomUUID()\<close> and
  \<open>Date.now()\<close> as its first two arguments.
\<close>

definition addTodo ::
  "string \<Rightarrow> int \<Rightarrow> string \<Rightarrow> string option \<Rightarrow> string option \<Rightarrow> Todo list \<Rightarrow> Todo list" where
  "addTodo randomUUID Date_now txt due_date due_time prevTodos =
     \<lparr>todo_id = randomUUID, todo_text = txt, completed = False, createdAt = Date_now,
      dueDate = due_date, dueTime = due_time, notified = Some False\<rparr> # prevTodos"

definition toggleTodo :: "string \<Rightarrow> Todo list \<Rightarrow> Todo list" where
  "toggleTodo i prevTodos =
     map (\<lambda>todo. if todo_id todo = i then todo\<lparr>completed := \<not> completed todo\<rparr> else todo)
       prevTodos"

definition deleteTodo :: "string \<Rightarrow> Todo list \<Rightarrow> Todo list" where
  "deleteTodo i prevTodos = filter (\<lambda>todo. todo_id todo \<noteq> i) prevTodos"

text \<open>The object spread \<open>{ ...todo, ...updates }\<close>: a key of \<open>updates\<close> wins.\<close>

definition spread_updates :: "Todo \<Rightarrow> TodoUpdatePayload \<Rightarrow> Todo" where
  "spread_updates todo updates =
     todo\<lparr>todo_text := (case upd_text updates of None \<Rightarrow> todo_text todo | Some v \<Rightarrow> v),
          completed := (case upd_completed updates of None \<Rightarrow> completed todo | Some v \<Rightarrow> v),
          dueDate := (case upd_dueDate updates of None \<Rightarrow> dueDate todo | Some v \<Rightarrow> v),
          dueTime := (case upd_dueTime updates of None \<Rightarrow> dueTime todo | Some v \<Rightarrow> v),
          notified := (case upd_notified updates of None \<Rightarrow> notified todo | Some v \<Rightarrow> v)\<rparr>"

definition editTodo :: "string \<Rightarrow> TodoUpdatePayload \<Rightarrow> Todo list \<Rightarrow> Todo list" where
  "editTodo i updates prevTodos =
     map (\<lambda>todo. if todo_id todo = i then spread_updates todo updates else todo) prevTodos"

definition clearCompleted :: "Todo list \<Rightarrow> Todo list" where
  "clearCompleted prevTodos = filter (\<lambda>todo. \<not> completed todo) prevTodos"

definition filteredTodos :: "FilterType \<Rightarrow> Todo list \<Rightarrow> Todo list" where
  "filteredTodos flt todos =
     filter (\<lambda>todo. if flt = Active then \<not> completed todo
                    else if flt = Completed then completed todo
                    else True) todos"

section \<open>Due-item scanner (src/App.tsx, checkNotifications)\<close>

text \<open>
  What one pass leaves behind: the notifications it constructed, in order, each with the
  id of the todo of the \<open>forEach\<close> iteration that built it, and the collection after the
  updaters queued with \<open>setTodos\<close> have run.
\<close>

record Alert =
  alert_for :: string
  alert_note :: Notification

record ScanState =
  alerts :: "Alert list"
  pending :: "Todo list"

text \<open>
  The body of the \<open>forEach\<close> callback. \<open>Date_parse\<close> is the platform's
  \<open>new Date(string)\<close>, reading a text without offset as local wall-clock time.
\<close>

definition checkNotifications_body ::
  "(string \<Rightarrow> int option) \<Rightarrow> int \<Rightarrow> Todo \<Rightarrow> ScanState \<Rightarrow> ScanState" where
  "checkNotifications_body Date_parse now todo s =
     (if truthy_string (dueDate todo) \<and> truthy_string (dueTime todo)
         \<and> \<not> completed todo \<and> \<not> truthy_bool (notified todo)
      then
        (let dueDateTime =
               Date_parse (template_string (dueDate todo) @ ''T'' @ template_string (dueTime todo))
         in if date_ge now dueDateTime
            then \<lparr>alerts = alerts s @
                     [\<lparr>alert_for = todo_id todo,
                       alert_note = \<lparr>title = ''Todo Reminder!'', body = todo_text todo,
                                     icon = ''/favicon.ico''\<rparr>\<rparr>],
                  pending = map (\<lambda>t. if todo_id t = todo_id todo
                                      then t\<lparr>notified := Some True\<rparr> else t) (pending s)\<rparr>
            else s)
      else s)"

fun checkNotifications_forEach ::
  "(string \<Rightarrow> int option) \<Rightarrow> int \<Rightarrow> Todo list \<Rightarrow> ScanState \<Rightarrow> ScanState" where
  "checkNotifications_forEach Date_parse now [] s = s"
| "checkNotifications_forEach Date_parse now (todo # rest) s =
     checkNotifications_forEach Date_parse now rest (checkNotifications_body Date_parse now todo s)"

text \<open>
  One pass over the collection of the current render: the loop reads \<open>todos\<close>, and the
  queued updaters start from the same collection. The effect around it runs a pass only
  in a mounted component with the permission \<open>granted\<close>, at once and then every minute.
\<close>

definition checkNotifications :: "(string \<Rightarrow> int option) \<Rightarrow> int \<Rightarrow> Todo list \<Rightarrow> ScanState" where
  "checkNotifications Date_parse now todos =
     checkNotifications_forEach Date_parse now todos \<lparr>alerts = [], pending = todos\<rparr>"

text \<open>
  A run of passes at the given times, each on the collection the pass before left:
  the alerts of every pass, and the last collection.
\<close>

fun scan_passes ::
  "(string \<Rightarrow> int option) \<Rightarrow> int list \<Rightarrow> Todo list \<Rightarrow> Alert list list \<times> Todo list" where
  "scan_passes Date_parse [] todos = ([], todos)"
| "scan_passes Date_parse (now # nows) todos =
     (let s = checkNotifications Date_parse now todos;
          r = scan_passes Date_parse nows (pending s)
      in (alerts s # fst r, snd r))"

section \<open>Persistent store (src/App.tsx, the two localStorage effects)\<close>

datatype error = SyntaxError

text \<open>
  The component state the two effects touch, and the slot \<open>LOCAL_STORAGE_KEY\<close> of
  \<open>localStorage\<close> (\<open>None\<close> when \<open>getItem\<close> returns \<open>null\<close>).
\<close>

record App =
  todos :: "Todo list"
  isMounted :: bool
  slot :: "string option"

text \<open>The state of a fresh mount over a given storage.\<close>

definition initial :: "string option \<Rightarrow> App" where
  "initial stored = \<lparr>todos = [], isMounted = False, slot = stored\<rparr>"

text \<open>
  The load effect. \<open>JSON_parse\<close> is the platform's \<open>JSON.parse\<close>, \<open>Inl\<close> when it
  throws; its value goes to \<open>setTodos\<close> as it is. \<open>if (storedTodos)\<close> is false for
  \<open>null\<close> and for the empty string. The parsed value is typed as an array of todos, as
  the state is; a stored text that parses to any other value is outside this model.
\<close>

definition load_effect :: "(string \<Rightarrow> error + Todo list) \<Rightarrow> App \<Rightarrow> App" where
  "load_effect JSON_parse a =
     (let a1 = a\<lparr>isMounted := True\<rparr>;
          storedTodos = slot a1
      in case storedTodos of
           None \<Rightarrow> a1
         | Some stored \<Rightarrow>
             if stored = [] then a1
             else (case JSON_parse stored of
                     Inr v \<Rightarrow> a1\<lparr>todos := v\<rparr>
                   | Inl e \<Rightarrow> a1\<lparr>slot := None\<rparr>))"

text \<open>The save effect. \<open>JSON_stringify\<close> is the platform's \<open>JSON.stringify\<close>.\<close>

definition save_effect :: "(Todo list \<Rightarrow> string) \<Rightarrow> App \<Rightarrow> App" where
  "save_effect JSON_stringify a =
     (if isMounted a then a\<lparr>slot := Some (JSON_stringify (todos a))\<rparr> else a)"

section \<open>JSON text (the platform's JSON.stringify and JSON.parse)\<close>

text \<open>
  The store keeps the collection as JSON text. \<open>JSON.stringify\<close> and \<open>JSON.parse\<close> are the
  platform's; they are written here after ECMA-262 (\<open>JSON.stringify\<close>:
  SerializeJSONProperty and QuoteJSONString, with no indentation; \<open>JSON.parse\<close>: the JSON
  grammar), on the values this model has: \<open>null\<close>, booleans, whole numbers that a
  JavaScript number holds exactly (at most \<open>2^53\<close> in size), strings of code units below
  256 (the characters of \<open>string\<close>), arrays, and objects as the list of their keys and
  values in key order.
\<close>

datatype json =
    JNull
  | JBool bool
  | JNumber int
  | JString string
  | JArray "json list"
  | JObject "(string \<times> json) list"

subsection \<open>Printing\<close>

text \<open>
  QuoteJSONString: the two-character escapes of the standard, the six-character escape
  (\<open>u\<close> and four lower-case hexadecimal digits) for the other code units below 32, every
  other code unit as it is.
\<close>

definition hex_char :: "nat \<Rightarrow> char" where
  "hex_char n = (if n < 10 then char_of (48 + n) else char_of (87 + n))"

definition quote_char :: "char \<Rightarrow> string" where
  "quote_char c =
     (if c = CHR 0x08 then [CHR 0x5C, CHR ''b'']
      else if c = CHR 0x09 then [CHR 0x5C, CHR ''t'']
      else if c = CHR 0x0A then [CHR 0x5C, CHR ''n'']
      else if c = CHR 0x0C then [CHR 0x5C, CHR ''f'']
      else if c = CHR 0x0D then [CHR 0x5C, CHR ''r'']
      else if c = CHR 0x22 then [CHR 0x5C, CHR 0x22]
      else if c = CHR 0x5C then [CHR 0x5C, CHR 0x5C]
      else if (of_char c :: nat) < 32
        then [CHR 0x5C, CHR ''u'', CHR ''0'', CHR ''0'',
              hex_char (of_char c div 16), hex_char (of_char c mod 16)]
      else [c])"

definition quote_string :: "string \<Rightarrow> string" where
  "quote_string s = CHR 0x22 # concat (map quote_char s) @ [CHR 0x22]"

text \<open>A whole number below \<open>10^21\<close> in size prints as its decimal digits, with a sign when negative.\<close>

fun digits :: "nat \<Rightarrow> string" where
  "digits n = (if n < 10 then [char_of (48 + n)] else digits (n div 10) @ [char_of (48 + n mod 10)])"

declare digits.simps [simp del]

definition number_text :: "int \<Rightarrow> string" where
  "number_text n = (if n < 0 then CHR ''-'' # digits (nat (- n)) else digits (nat n))"

text \<open>A value prints without white space; the members of an object print in key order.\<close>

fun JSON_stringify_value :: "json \<Rightarrow> string"
  and stringify_elements :: "json list \<Rightarrow> string"
  and stringify_members :: "(string \<times> json) list \<Rightarrow> string" where
  "JSON_stringify_value JNull = ''null''"
| "JSON_stringify_value (JBool b) = (if b then ''true'' else ''false'')"
| "JSON_stringify_value (JNumber n) = number_text n"
| "JSON_stringify_value (JString s) = quote_string s"
| "JSON_stringify_value (JArray vs) = ''['' @ stringify_elements vs @ '']''"
| "JSON_stringify_value (JObject kvs) = ''{'' @ stringify_members kvs @ ''}''"
| "stringify_elements [] = []"
| "stringify_elements [v] = JSON_stringify_value v"
| "stringify_elements (v # w # vs) = JSON_stringify_value v @ '','' @ stringify_elements (w # vs)"
| "stringify_members [] = []"
| "stringify_members [(k, v)] = quote_string k @ '':'' @ JSON_stringify_value v"
| "stringify_members ((k, v) # m # kvs) =
     quote_string k @ '':'' @ JSON_stringify_value v @ '','' @ stringify_members (m # kvs)"

subsection \<open>Parsing\<close>

text \<open>White space is space, tab, line feed and carriage return.\<close>

definition is_ws :: "char \<Rightarrow> bool" where
  "is_ws c = (c = CHR 0x20 \<or> c = CHR 0x09 \<or> c = CHR 0x0A \<or> c = CHR 0x0D)"

definition skip_ws :: "string \<Rightarrow> string" where
  "skip_ws s = dropWhile is_ws s"

definition is_digit :: "char \<Rightarrow> bool" where
  "is_digit c = (48 \<le> (of_char c :: nat) \<and> (of_char c :: nat) \<le> 57)"

definition digits_value :: "string \<Rightarrow> nat" where
  "digits_value ds = foldl (\<lambda>n c. 10 * n + (of_char c - 48)) 0 ds"

definition hex_value :: "char \<Rightarrow> nat option" where
  "hex_value c =
     (let n = (of_char c :: nat)
      in if 48 \<le> n \<and> n \<le> 57 then Some (n - 48)
         else if 97 \<le> n \<and> n \<le> 102 then Some (n - 87)
         else if 65 \<le> n \<and> n \<le> 70 then Some (n - 55)
         else None)"

definition simple_escape :: "char \<Rightarrow> char option" where
  "simple_escape e =
     (if e = CHR 0x22 then Some (CHR 0x22)
      else if e = CHR 0x5C then Some (CHR 0x5C)
      else if e = CHR ''/'' then Some (CHR ''/'')
      else if e = CHR ''b'' then Some (CHR 0x08)
      else if e = CHR ''f'' then Some (CHR 0x0C)
      else if e = CHR ''n'' then Some (CHR 0x0A)
      else if e = CHR ''r'' then Some (CHR 0x0D)
      else if e = CHR ''t'' then Some (CHR 0x09)
      else None)"

text \<open>
  The code unit of an escape with four hexadecimal digits: \<open>None\<close> when a digit is not
  hexadecimal, \<open>Some None\<close> when the code unit is 256 or above, which a \<open>string\<close> here
  cannot hold.
\<close>

definition code_unit :: "char \<Rightarrow> char \<Rightarrow> char \<Rightarrow> char \<Rightarrow> char option option" where
  "code_unit h1 h2 h3 h4 =
     (case (hex_value h1, hex_value h2, hex_value h3, hex_value h4) of
        (Some a, Some b, Some c, Some d) \<Rightarrow>
          (let n = ((a * 16 + b) * 16 + c) * 16 + d
           in Some (if n < 256 then Some (char_of n) else None))
      | _ \<Rightarrow> None)"

definition cons_unit ::
  "char option \<Rightarrow> (string option \<times> string) option \<Rightarrow> (string option \<times> string) option" where
  "cons_unit c r =
     (case r of
        None \<Rightarrow> None
      | Some (s, rest) \<Rightarrow>
          Some (case c of None \<Rightarrow> None | Some x \<Rightarrow> map_option (\<lambda>xs. x # xs) s, rest))"

text \<open>
  A string after its opening quote, up to the closing quote: the characters and the rest
  of the text. \<open>None\<close> is a syntax error (no closing quote, a bad escape, a raw code
  unit below 32); the characters are \<open>None\<close> when one of them is 256 or above.
\<close>

fun scan_string :: "string \<Rightarrow> (string option \<times> string) option" where
  "scan_string [] = None"
| "scan_string (c # cs) =
     (if c = CHR 0x22 then Some (Some [], cs)
      else if c = CHR 0x5C then
        (case cs of
           [] \<Rightarrow> None
         | e # es \<Rightarrow>
             if e = CHR ''u'' then
               (case es of
                  h1 # h2 # h3 # h4 # rest \<Rightarrow>
                    (case code_unit h1 h2 h3 h4 of
                       None \<Rightarrow> None
                     | Some u \<Rightarrow> cons_unit u (scan_string rest))
                | _ \<Rightarrow> None)
             else
               (case simple_escape e of
                  None \<Rightarrow> None
                | Some x \<Rightarrow> cons_unit (Some x) (scan_string es)))
      else if (of_char c :: nat) < 32 then None
      else cons_unit (Some c) (scan_string cs))"

text \<open>
  A number: an optional minus, \<open>0\<close> or digits that do not start with \<open>0\<close>, an optional
  fraction, an optional exponent. The value is \<open>None\<close> when JavaScript's number is not a
  whole number this model holds: with a fraction or an exponent, negative zero, or beyond
  \<open>2^53\<close>.
\<close>

definition scan_fraction :: "string \<Rightarrow> (bool \<times> string) option" where
  "scan_fraction s =
     (case s of
        [] \<Rightarrow> Some (False, [])
      | c # r \<Rightarrow>
          if c = CHR ''.''
          then (if takeWhile is_digit r = [] then None else Some (True, dropWhile is_digit r))
          else Some (False, s))"

definition scan_exponent :: "string \<Rightarrow> (bool \<times> string) option" where
  "scan_exponent s =
     (case s of
        [] \<Rightarrow> Some (False, [])
      | c # r \<Rightarrow>
          if c = CHR ''e'' \<or> c = CHR ''E''
          then (let r1 = (case r of
                            [] \<Rightarrow> []
                          | g # r2 \<Rightarrow> if g = CHR ''+'' \<or> g = CHR ''-'' then r2 else r)
                in if takeWhile is_digit r1 = [] then None
                   else Some (True, dropWhile is_digit r1))
          else Some (False, s))"

definition scan_number :: "string \<Rightarrow> (json option \<times> string) option" where
  "scan_number s =
     (let neg = (case s of [] \<Rightarrow> False | c # _ \<Rightarrow> c = CHR ''-'');
          s1 = (if neg then tl s else s);
          ds = (case s1 of [] \<Rightarrow> [] | c # _ \<Rightarrow> if c = CHR ''0'' then [c] else takeWhile is_digit s1)
      in if ds = [] then None
         else (case scan_fraction (drop (length ds) s1) of
                 None \<Rightarrow> None
               | Some (frac, s2) \<Rightarrow>
                   (case scan_exponent s2 of
                      None \<Rightarrow> None
                    | Some (ex, s3) \<Rightarrow>
                        Some (if frac \<or> ex \<or> (neg \<and> digits_value ds = 0)
                                 \<or> 9007199254740992 < digits_value ds
                              then None
                              else Some (JNumber (if neg then - int (digits_value ds)
                                                  else int (digits_value ds))),
                              s3))))"

text \<open>
  The outcome of a parsing function: a value and the rest of the text, a syntax error, or
  no fuel left. The value is \<open>None\<close> when the text is JSON and its value is not one this
  model has.
\<close>

datatype 'a parsed = Ok 'a string | Bad | OutOfFuel

definition cons_value :: "json option \<Rightarrow> json list option parsed \<Rightarrow> json list option parsed" where
  "cons_value v r =
     (case r of
        Ok vs rest \<Rightarrow> Ok (case v of None \<Rightarrow> None | Some x \<Rightarrow> map_option (\<lambda>xs. x # xs) vs) rest
      | Bad \<Rightarrow> Bad
      | OutOfFuel \<Rightarrow> OutOfFuel)"

definition make_member :: "string option \<Rightarrow> json option \<Rightarrow> (string \<times> json) option" where
  "make_member k v = (case k of None \<Rightarrow> None | Some x \<Rightarrow> map_option (\<lambda>y. (x, y)) v)"

definition cons_member ::
  "(string \<times> json) option \<Rightarrow> (string \<times> json) list option parsed
     \<Rightarrow> (string \<times> json) list option parsed" where
  "cons_member m r =
     (case r of
        Ok ms rest \<Rightarrow> Ok (case m of None \<Rightarrow> None | Some x \<Rightarrow> map_option (\<lambda>xs. x # xs) ms) rest
      | Bad \<Rightarrow> Bad
      | OutOfFuel \<Rightarrow> OutOfFuel)"

definition wrap :: "('a \<Rightarrow> json) \<Rightarrow> 'a option parsed \<Rightarrow> json option parsed" where
  "wrap f r = (case r of Ok x rest \<Rightarrow> Ok (map_option f x) rest | Bad \<Rightarrow> Bad | OutOfFuel \<Rightarrow> OutOfFuel)"

definition scanned :: "('a \<times> string) option \<Rightarrow> 'a parsed" where
  "scanned r = (case r of None \<Rightarrow> Bad | Some (x, rest) \<Rightarrow> Ok x rest)"

definition keyword :: "string \<Rightarrow> json \<Rightarrow> string \<Rightarrow> json option parsed" where
  "keyword w v s = (if take (length w) s = w then Ok (Some v) (drop (length w) s) else Bad)"

text \<open>
  A value, the elements of an array after its first bracket, the members of an object
  after its first brace. Every call takes one unit of fuel.
\<close>

fun parse_value :: "nat \<Rightarrow> string \<Rightarrow> json option parsed"
  and parse_elements :: "nat \<Rightarrow> string \<Rightarrow> json list option parsed"
  and parse_members :: "nat \<Rightarrow> string \<Rightarrow> (string \<times> json) list option parsed" where
  "parse_value 0 s = OutOfFuel"
| "parse_value (Suc fuel) s =
     (case skip_ws s of
        [] \<Rightarrow> Bad
      | c # cs \<Rightarrow>
          if c = CHR ''['' then
            (case skip_ws cs of
               [] \<Rightarrow> Bad
             | d # ds \<Rightarrow> if d = CHR '']'' then Ok (Some (JArray [])) ds
                         else wrap JArray (parse_elements fuel (d # ds)))
          else if c = CHR ''{'' then
            (case skip_ws cs of
               [] \<Rightarrow> Bad
             | d # ds \<Rightarrow> if d = CHR ''}'' then Ok (Some (JObject [])) ds
                         else wrap JObject (parse_members fuel (d # ds)))
          else if c = CHR 0x22 then wrap JString (scanned (scan_string cs))
          else if c = CHR ''-'' \<or> is_digit c then scanned (scan_number (c # cs))
          else if c = CHR ''t'' then keyword ''true'' (JBool True) (c # cs)
          else if c = CHR ''f'' then keyword ''false'' (JBool False) (c # cs)
          else if c = CHR ''n'' then keyword ''null'' JNull (c # cs)
          else Bad)"
| "parse_elements 0 s = OutOfFuel"
| "parse_elements (Suc fuel) s =
     (case parse_value fuel s of
        Bad \<Rightarrow> Bad
      | OutOfFuel \<Rightarrow> OutOfFuel
      | Ok v rest \<Rightarrow>
          (case skip_ws rest of
             [] \<Rightarrow> Bad
           | c # cs \<Rightarrow>
               if c = CHR '','' then cons_value v (parse_elements fuel cs)
               else if c = CHR '']'' then Ok (map_option (\<lambda>x. [x]) v) cs
               else Bad))"
| "parse_members 0 s = OutOfFuel"
| "parse_members (Suc fuel) s =
     (case skip_ws s of
        [] \<Rightarrow> Bad
      | q # cs \<Rightarrow>
          if q \<noteq> CHR 0x22 then Bad
          else
            (case scan_string cs of
               None \<Rightarrow> Bad
             | Some (k, r1) \<Rightarrow>
                 (case skip_ws r1 of
                    [] \<Rightarrow> Bad
                  | c # r2 \<Rightarrow>
                      if c \<noteq> CHR '':'' then Bad
                      else
                        (case parse_value fuel r2 of
                           Bad \<Rightarrow> Bad
                         | OutOfFuel \<Rightarrow> OutOfFuel
                         | Ok v r3 \<Rightarrow>
                             (case skip_ws r3 of
                                [] \<Rightarrow> Bad
                              | e # r4 \<Rightarrow>
                                  if e = CHR '','' then cons_member (make_member k v) (parse_members fuel r4)
                                  else if e = CHR ''}'' then Ok (map_option (\<lambda>x. [x]) (make_member k v)) r4
                                  else Bad)))))"

text \<open>
  \<open>JSON.parse\<close>: one value with white space around it and nothing after; \<open>Inl\<close> when it
  throws. The fuel is enough for every text (\<open>parse_fuel\<close> below), so the last case never
  applies.
\<close>

definition JSON_parse_value :: "string \<Rightarrow> error + json option" where
  "JSON_parse_value s =
     (case parse_value (2 * length s + 2) s of
        Ok v rest \<Rightarrow> if skip_ws rest = [] then Inr v else Inl SyntaxError
      | Bad \<Rightarrow> Inl SyntaxError
      | OutOfFuel \<Rightarrow> Inl SyntaxError)"

subsection \<open>Reading a parsed value as a collection\<close>

text \<open>
  The state is typed \<open>Todo[]\<close>; the code reads the parsed value through that type without
  a check. A value reads as a collection when it is an array of objects that have the keys
  of \<open>Todo\<close> and no other, each key once and with a value of its type; a key of an
  optional field may be missing. Any other value has no counterpart in the typed state.
\<close>

definition todo_keys :: "string list" where
  "todo_keys = [''id'', ''text'', ''completed'', ''createdAt'', ''dueDate'', ''dueTime'', ''notified'']"

definition string_field :: "json option \<Rightarrow> string option" where
  "string_field v = (case v of Some (JString s) \<Rightarrow> Some s | _ \<Rightarrow> None)"

definition bool_field :: "json option \<Rightarrow> bool option" where
  "bool_field v = (case v of Some (JBool b) \<Rightarrow> Some b | _ \<Rightarrow> None)"

definition number_field :: "json option \<Rightarrow> int option" where
  "number_field v =
     (case v of
        Some (JNumber n) \<Rightarrow> if \<bar>n\<bar> \<le> 9007199254740992 then Some n else None
      | _ \<Rightarrow> None)"

definition optional_string_field :: "json option \<Rightarrow> string option option" where
  "optional_string_field v =
     (case v of None \<Rightarrow> Some None | Some (JString s) \<Rightarrow> Some (Some s) | _ \<Rightarrow> None)"

definition optional_bool_field :: "json option \<Rightarrow> bool option option" where
  "optional_bool_field v =
     (case v of None \<Rightarrow> Some None | Some (JBool b) \<Rightarrow> Some (Some b) | _ \<Rightarrow> None)"

definition todo_of_fields :: "(string \<times> json) list \<Rightarrow> Todo option" where
  "todo_of_fields kvs =
     (case string_field (map_of kvs ''id'') of None \<Rightarrow> None | Some i \<Rightarrow>
     (case string_field (map_of kvs ''text'') of None \<Rightarrow> None | Some t \<Rightarrow>
     (case bool_field (map_of kvs ''completed'') of None \<Rightarrow> None | Some c \<Rightarrow>
     (case number_field (map_of kvs ''createdAt'') of None \<Rightarrow> None | Some n \<Rightarrow>
     (case optional_string_field (map_of kvs ''dueDate'') of None \<Rightarrow> None | Some d \<Rightarrow>
     (case optional_string_field (map_of kvs ''dueTime'') of None \<Rightarrow> None | Some tm \<Rightarrow>
     (case optional_bool_field (map_of kvs ''notified'') of None \<Rightarrow> None | Some nf \<Rightarrow>
        Some \<lparr>todo_id = i, todo_text = t, completed = c, createdAt = n,
              dueDate = d, dueTime = tm, notified = nf\<rparr>)))))))"

definition todo_of_json :: "json \<Rightarrow> Todo option" where
  "todo_of_json v =
     (case v of
        JObject kvs \<Rightarrow>
          if distinct (map fst kvs) \<and> list_all (\<lambda>kv. fst kv \<in> set todo_keys) kvs
          then todo_of_fields kvs else None
      | _ \<Rightarrow> None)"

definition todos_of_json :: "json \<Rightarrow> Todo list option" where
  "todos_of_json v = (case v of JArray vs \<Rightarrow> those (map todo_of_json vs) | _ \<Rightarrow> None)"

text \<open>
  The value of a todo as \<open>addTodo\<close> builds it and the spreads keep it: the keys in the
  order of the object literal, a key whose value is \<open>undefined\<close> left out, as
  \<open>JSON.stringify\<close> leaves it out.
\<close>

definition json_of_todo :: "Todo \<Rightarrow> json" where
  "json_of_todo t =
     JObject ([(''id'', JString (todo_id t)), (''text'', JString (todo_text t)),
               (''completed'', JBool (completed t)), (''createdAt'', JNumber (createdAt t))]
              @ (case dueDate t of None \<Rightarrow> [] | Some d \<Rightarrow> [(''dueDate'', JString d)])
              @ (case dueTime t of None \<Rightarrow> [] | Some tm \<Rightarrow> [(''dueTime'', JString tm)])
              @ (case notified t of None \<Rightarrow> [] | Some b \<Rightarrow> [(''notified'', JBool b)]))"

subsection \<open>Notions for the proofs\<close>

text \<open>A value whose numbers are all at most \<open>2^53\<close> in size.\<close>

fun representable :: "json \<Rightarrow> bool"
  and representable_elements :: "json list \<Rightarrow> bool"
  and representable_members :: "(string \<times> json) list \<Rightarrow> bool" where
  "representable JNull = True"
| "representable (JBool b) = True"
| "representable (JNumber n) = (\<bar>n\<bar> \<le> 9007199254740992)"
| "representable (JString s) = True"
| "representable (JArray vs) = representable_elements vs"
| "representable (JObject kvs) = representable_members kvs"
| "representable_elements [] = True"
| "representable_elements (v # vs) = (representable v \<and> representable_elements vs)"
| "representable_members [] = True"
| "representable_members ((k, v) # kvs) = (representable v \<and> representable_members kvs)"

text \<open>What may follow a number, a character that starts a value, and what follows a value inside an array or an object.\<close>

definition number_end :: "string \<Rightarrow> bool" where
  "number_end rest =
     (case rest of
        [] \<Rightarrow> True
      | c # _ \<Rightarrow> \<not> is_digit c \<and> c \<noteq> CHR ''.'' \<and> c \<noteq> CHR ''e'' \<and> c \<noteq> CHR ''E'')"

definition starts_value :: "char \<Rightarrow> bool" where
  "starts_value c =
     (\<not> is_ws c \<and> c \<noteq> CHR '']'' \<and> c \<noteq> CHR ''}'' \<and> c \<noteq> CHR '','' \<and> c \<noteq> CHR '':'')"

definition delimited :: "string \<Rightarrow> bool" where
  "delimited rest =
     (case rest of [] \<Rightarrow> True | c # _ \<Rightarrow> c = CHR '','' \<or> c = CHR '']'' \<or> c = CHR ''}'')"

section \<open>The words of the specification\<close>

text \<open>The alert the scanner builds for a todo: the fixed title and icon, the todo's text as body.\<close>

definition reminder :: "Todo \<Rightarrow> Alert" where
  "reminder todo =
     \<lparr>alert_for = todo_id todo,
      alert_note = \<lparr>title = ''Todo Reminder!'', body = todo_text todo, icon = ''/favicon.ico''\<rparr>\<rparr>"

text \<open>
  The specification's condition for an alert at time \<open>now\<close>: due date and due time are both
  present (a text that is not empty), the task is not completed, its notified flag is not
  set, and the instant read from \<open>date T time\<close> exists and is not after \<open>now\<close>.
\<close>

definition alert_condition :: "(string \<Rightarrow> int option) \<Rightarrow> int \<Rightarrow> Todo \<Rightarrow> bool" where
  "alert_condition Date_parse now t =
     (case dueDate t of
        None \<Rightarrow> False
      | Some d \<Rightarrow>
          (case dueTime t of
             None \<Rightarrow> False
           | Some tm \<Rightarrow>
               d \<noteq> [] \<and> tm \<noteq> [] \<and> \<not> completed t \<and> notified t \<noteq> Some True
               \<and> (case Date_parse (d @ ''T'' @ tm) of None \<Rightarrow> False | Some due \<Rightarrow> due \<le> now)))"

definition mark_notified :: "Todo \<Rightarrow> Todo" where
  "mark_notified t = t\<lparr>notified := Some True\<rparr>"

section \<open>Sample inputs\<close>

text \<open>
  The task of the specification's scenario, a second task with a due date and no due time,
  and a date parser that knows the one instant of the scenario (2024-01-01, 09:00, on a
  machine whose local time is UTC).
\<close>

definition rent :: Todo where
  "rent = \<lparr>todo_id = ''a1'', todo_text = ''Pay rent'', completed = False,
           createdAt = 1700000000000, dueDate = Some ''2024-01-01'', dueTime = Some ''09:00'',
           notified = Some False\<rparr>"

definition call :: Todo where
  "call = \<lparr>todo_id = ''b2'', todo_text = ''Call home'', completed = True,
           createdAt = 1700000000500, dueDate = Some ''2024-01-01'', dueTime = None,
           notified = None\<rparr>"

definition Date_parse_sample :: "string \<Rightarrow> int option" where
  "Date_parse_sample s = (if s = ''2024-01-01T09:00'' then Some 1704099600000 else None)"

text \<open>A task whose due texts do not make a date.\<close>

definition vague :: Todo where
  "vague = \<lparr>todo_id = ''c3'', todo_text = ''Water plants'', completed = False,
            createdAt = 1700000001000, dueDate = Some ''someday'', dueTime = Some ''noon'',
            notified = Some False\<rparr>"

text \<open>
  The JSON text of the collection that holds \<open>rent\<close> alone, and \<open>JSON.parse\<close> cut down
  to the texts used below: the empty array and that text; the parser throws on every
  other text, as the real one does on the empty text and on \<open>{oops\<close>.
\<close>

definition rent_json :: string where
  "rent_json = ''[{\"id\":\"a1\",\"text\":\"Pay rent\",\"completed\":false,\"createdAt\":1700000000000,\"dueDate\":\"2024-01-01\",\"dueTime\":\"09:00\",\"notified\":false}]''"

definition JSON_parse_sample :: "string \<Rightarrow> error + Todo list" where
  "JSON_parse_sample s =
     (if s = ''[]'' then Inr [] else if s = rent_json then Inr [rent] else Inl SyntaxError)"

text \<open>
  A \<open>JSON.stringify\<close> and a \<open>JSON.parse\<close> at the type of the state: the first prints the
  value of each todo, the second reads the parsed value as a collection. Where the value
  does not read as one, the typed state has nothing to hold it; this sample then gives
  the empty collection, and is used below on a text that does read as one.
\<close>

definition JSON_stringify_todos :: "Todo list \<Rightarrow> string" where
  "JSON_stringify_todos ts = JSON_stringify_value (JArray (map json_of_todo ts))"

definition JSON_parse_todos :: "string \<Rightarrow> error + Todo list" where
  "JSON_parse_todos s =
     (case JSON_parse_value s of
        Inl e \<Rightarrow> Inl e
      | Inr None \<Rightarrow> Inr []
      | Inr (Some w) \<Rightarrow> (case todos_of_json w of None \<Rightarrow> Inr [] | Some ts \<Rightarrow> Inr ts))"

section \<open>An invariant of the scanner\<close>

text \<open>Every task with the id \<open>i\<close> has its notified flag set.\<close>

definition silenced :: "string \<Rightarrow> Todo list \<Rightarrow> bool" where
  "silenced i ts = (\<forall>t \<in> set ts. todo_id t = i \<longrightarrow> notified t = Some True)"

section \<open>The scanner, pass by pass\<close>

lemma body_char:
  "checkNotifications_body P now todo s =
     (if alert_condition P now todo
      then \<lparr>alerts = alerts s @ [reminder todo],
            pending = map (\<lambda>t. if todo_id t = todo_id todo then mark_notified t else t) (pending s)\<rparr>
      else s)"
  by (cases "dueDate todo"; cases "dueTime todo"; cases "notified todo")
     (auto simp: checkNotifications_body_def alert_condition_def reminder_def mark_notified_def
        truthy_string_def truthy_bool_def template_string_def date_ge_def Let_def
        split: option.splits)

text \<open>
  The loop on any collection, ids distinct or not: one alert for each todo of the snapshot
  that meets the condition, and the flag set on every pending task that shares its id
  with such a todo.
\<close>

lemma forEach_char:
  "checkNotifications_forEach P now rest s =
     \<lparr>alerts = alerts s @ map reminder (filter (alert_condition P now) rest),
      pending = map (\<lambda>t. if todo_id t \<in> todo_id ` {x \<in> set rest. alert_condition P now x}
                          then mark_notified t else t) (pending s)\<rparr>"
proof (induction rest arbitrary: s)
  case Nil
  show ?case by simp
next
  case (Cons todo rest)
  show ?case
  proof (cases "alert_condition P now todo")
    case True
    have "map (\<lambda>t. if todo_id t \<in> todo_id ` {x \<in> set rest. alert_condition P now x}
                          then mark_notified t else t)
            (map (\<lambda>t. if todo_id t = todo_id todo then mark_notified t else t) (pending s))
          = map (\<lambda>t. if todo_id t \<in> todo_id ` {x \<in> set (todo # rest). alert_condition P now x}
                          then mark_notified t else t) (pending s)"
      using True by (auto simp: mark_notified_def)
    then show ?thesis using True by (simp add: Cons.IH body_char)
  next
    case False
    have "{x \<in> set (todo # rest). alert_condition P now x} = {x \<in> set rest. alert_condition P now x}"
      using False by auto
    then show ?thesis using False by (simp add: Cons.IH body_char)
  qed
qed

lemma scan_char:
  assumes "distinct (map todo_id ts)"
  shows "checkNotifications P now ts =
     \<lparr>alerts = map reminder (filter (alert_condition P now) ts),
      pending = map (\<lambda>t. if alert_condition P now t then mark_notified t else t) ts\<rparr>"
proof -
  have "\<And>t. t \<in> set ts \<Longrightarrow>
      (todo_id t \<in> todo_id ` {x \<in> set ts. alert_condition P now x}) = alert_condition P now t"
    using assms by (auto simp: distinct_map inj_on_def)
  then have "map (\<lambda>t. if todo_id t \<in> todo_id ` {x \<in> set ts. alert_condition P now x}
                          then mark_notified t else t) ts
     = map (\<lambda>t. if alert_condition P now t then mark_notified t else t) ts"
    by (intro map_cong) auto
  then show ?thesis by (simp add: checkNotifications_def forEach_char)
qed

lemma alerted_ids:
  assumes "distinct (map todo_id ts)" and "t \<in> set ts"
  shows "(todo_id t \<in> alert_for ` set (map reminder (filter (alert_condition P now) ts)))
         = alert_condition P now t"
  using assms by (auto simp: reminder_def distinct_map inj_on_def image_iff)

text \<open>
  C1. One pass at time \<open>now\<close> over a collection with distinct ids: the alerts are the
  reminders (body: the task's text) of exactly the tasks that meet the alert condition,
  in collection order, one each; exactly those tasks get notified set to true, every other
  task stays as it was; and a task without due date or without due time gets no alert,
  whatever \<open>now\<close> is.
\<close>

theorem checkNotifications_alerts_exactly_due:
  assumes "distinct (map todo_id ts)"
  shows "alerts (checkNotifications P now ts) = map reminder (filter (alert_condition P now) ts)
       \<and> pending (checkNotifications P now ts)
           = map (\<lambda>t. if alert_condition P now t then t\<lparr>notified := Some True\<rparr> else t) ts
       \<and> (\<forall>t \<in> set ts. (todo_id t \<in> alert_for ` set (alerts (checkNotifications P now ts)))
                         = alert_condition P now t)
       \<and> (\<forall>t \<in> set ts. dueDate t = None \<or> dueTime t = None
             \<longrightarrow> todo_id t \<notin> alert_for ` set (alerts (checkNotifications P now ts)))"
proof -
  have a: "alerts (checkNotifications P now ts) = map reminder (filter (alert_condition P now) ts)"
    by (simp add: scan_char [OF assms])
  have p: "pending (checkNotifications P now ts)
           = map (\<lambda>t. if alert_condition P now t then t\<lparr>notified := Some True\<rparr> else t) ts"
    by (simp add: scan_char [OF assms] mark_notified_def)
  have i: "\<forall>t \<in> set ts. (todo_id t \<in> alert_for ` set (alerts (checkNotifications P now ts)))
                         = alert_condition P now t"
    unfolding a using alerted_ids [OF assms] by blast
  have "\<forall>t \<in> set ts. dueDate t = None \<or> dueTime t = None \<longrightarrow> \<not> alert_condition P now t"
    by (auto simp: alert_condition_def split: option.splits)
  with i have m: "\<forall>t \<in> set ts. dueDate t = None \<or> dueTime t = None
             \<longrightarrow> todo_id t \<notin> alert_for ` set (alerts (checkNotifications P now ts))"
    by blast
  from a p i m show ?thesis by blast
qed

theorem checkNotifications_alerts_exactly_due_witness:
  "distinct (map todo_id [call, rent])
   \<and> alerts (checkNotifications Date_parse_sample 1704099600000 [call, rent]) = [reminder rent]
   \<and> pending (checkNotifications Date_parse_sample 1704099600000 [call, rent])
       = [call, rent\<lparr>notified := Some True\<rparr>]
   \<and> alerts (checkNotifications Date_parse_sample 1704099599999 [call, rent]) = []"
proof -
  have d: "distinct (map todo_id [call, rent])"
    by (simp add: call_def rent_def)
  have c1: "\<not> alert_condition Date_parse_sample 1704099600000 call"
    by (simp add: alert_condition_def call_def)
  have c2: "alert_condition Date_parse_sample 1704099600000 rent"
    by (simp add: alert_condition_def rent_def Date_parse_sample_def)
  have c3: "\<not> alert_condition Date_parse_sample 1704099599999 call"
    by (simp add: alert_condition_def call_def)
  have c4: "\<not> alert_condition Date_parse_sample 1704099599999 rent"
    by (simp add: alert_condition_def rent_def Date_parse_sample_def)
  show ?thesis
    using d c1 c2 c3 c4
      checkNotifications_alerts_exactly_due [OF d, of Date_parse_sample 1704099600000]
      checkNotifications_alerts_exactly_due [OF d, of Date_parse_sample 1704099599999]
    by simp
qed

section \<open>The repository's views and mutations\<close>

text \<open>
  C6. For every collection: the view \<open>all\<close> is the collection, \<open>active\<close> is its tasks with
  completed false, \<open>completed\<close> its tasks with completed true; the active and the completed
  view share no task, together they hold the tasks of the view \<open>all\<close>, and every view
  keeps the collection's order.
\<close>

theorem filteredTodos_partition:
  "filteredTodos All ts = ts
   \<and> filteredTodos Active ts = filter (\<lambda>t. \<not> completed t) ts
   \<and> filteredTodos Completed ts = filter completed ts
   \<and> set (filteredTodos Active ts) \<inter> set (filteredTodos Completed ts) = {}
   \<and> set (filteredTodos Active ts) \<union> set (filteredTodos Completed ts) = set (filteredTodos All ts)
   \<and> subseq (filteredTodos flt ts) ts"
  by (auto simp: filteredTodos_def)

text \<open>
  C7. \<open>clearCompleted\<close> keeps the collection's order, leaves no completed task, and keeps
  every task that is not completed as often as it was there.
\<close>

theorem clearCompleted_removes_exactly_completed:
  "subseq (clearCompleted ts) ts
   \<and> (\<forall>t. count_list (clearCompleted ts) t = (if completed t then 0 else count_list ts t))"
  by (induction ts) (auto simp: clearCompleted_def)

text \<open>
  C9. On a collection that holds no task with the id \<open>i\<close>, toggle, delete and edit with
  \<open>i\<close> each give the collection back as it was.
\<close>

theorem absent_id_is_noop:
  assumes "i \<notin> set (map todo_id ts)"
  shows "toggleTodo i ts = ts \<and> deleteTodo i ts = ts \<and> editTodo i u ts = ts"
  using assms by (induction ts) (auto simp: toggleTodo_def deleteTodo_def editTodo_def)

theorem absent_id_is_noop_witness:
  "''zz'' \<notin> set (map todo_id [call, rent])
   \<and> toggleTodo ''zz'' [call, rent] = [call, rent]
   \<and> deleteTodo ''zz'' [call, rent] = [call, rent]
   \<and> editTodo ''zz'' \<lparr>upd_text = Some ''x'', upd_completed = Some True, upd_dueDate = None,
                       upd_dueTime = None, upd_notified = Some None\<rparr> [call, rent] = [call, rent]"
proof -
  have h: "''zz'' \<notin> set (map todo_id [call, rent])"
    by (simp add: call_def rent_def)
  show ?thesis
    using h absent_id_is_noop [OF h] by simp
qed

section \<open>Runs of passes\<close>


lemma pending_ids:
  assumes "distinct (map todo_id ts)"
  shows "map todo_id (pending (checkNotifications P now ts)) = map todo_id ts"
  by (simp add: scan_char [OF assms] mark_notified_def comp_def if_distrib cong: if_cong)

lemma pending_distinct:
  assumes "distinct (map todo_id ts)"
  shows "distinct (map todo_id (pending (checkNotifications P now ts)))"
  using assms by (simp only: pending_ids [OF assms])

lemma alerts_for_id:
  assumes "distinct (map todo_id ts)"
  shows "filter (\<lambda>a. alert_for a = i) (alerts (checkNotifications P now ts))
         = map reminder (filter (\<lambda>t. alert_condition P now t \<and> todo_id t = i) ts)"
  by (simp add: scan_char [OF assms] filter_map comp_def reminder_def)

lemma filter_key_le1:
  "distinct (map f xs) \<Longrightarrow> length (filter (\<lambda>x. Q x \<and> f x = i) xs) \<le> Suc 0"
  by (induction xs) (auto simp: filter_empty_conv image_iff)

lemma filter_key_single:
  "distinct (map f xs) \<Longrightarrow> x \<in> set xs \<Longrightarrow> Q x \<Longrightarrow> filter (\<lambda>y. Q y \<and> f y = f x) xs = [x]"
  by (induction xs) (auto simp: filter_empty_conv image_iff)

lemma filter_key_none:
  "distinct (map f xs) \<Longrightarrow> x \<in> set xs \<Longrightarrow> \<not> Q x \<Longrightarrow> filter (\<lambda>y. Q y \<and> f y = f x) xs = []"
  by (auto simp: filter_empty_conv distinct_map inj_on_def)

lemma notified_not_due: "notified t = Some True \<Longrightarrow> \<not> alert_condition P now t"
  by (simp add: alert_condition_def split: option.splits)

lemma silenced_pending:
  assumes "distinct (map todo_id ts)" and "silenced i ts"
  shows "silenced i (pending (checkNotifications P now ts))"
  using assms(2) by (auto simp: scan_char [OF assms(1)] silenced_def mark_notified_def)

lemma silenced_after_alert:
  assumes "distinct (map todo_id ts)" and "t \<in> set ts" and "alert_condition P now t"
  shows "silenced (todo_id t) (pending (checkNotifications P now ts))"
  using assms by (auto simp: scan_char [OF assms(1)] silenced_def mark_notified_def
      distinct_map inj_on_def)

lemma silenced_no_alert:
  assumes "distinct (map todo_id ts)" and "silenced i ts"
  shows "filter (\<lambda>a. alert_for a = i) (alerts (checkNotifications P now ts)) = []"
  using assms(2)
  by (auto simp: alerts_for_id [OF assms(1)] filter_empty_conv silenced_def notified_not_due)

lemma silenced_passes:
  "distinct (map todo_id ts) \<Longrightarrow> silenced i ts \<Longrightarrow>
   map (filter (\<lambda>a. alert_for a = i)) (fst (scan_passes P nows ts)) = replicate (length nows) []"
proof (induction nows arbitrary: ts)
  case Nil
  show ?case by simp
next
  case (Cons now nows)
  have "map (filter (\<lambda>a. alert_for a = i))
          (fst (scan_passes P nows (pending (checkNotifications P now ts))))
        = replicate (length nows) []"
    using Cons.prems by (intro Cons.IH pending_distinct silenced_pending)
  then show ?case
    using Cons.prems by (simp add: Let_def silenced_no_alert)
qed

lemma filter_concat_map:
  "filter Q (concat xss) = concat (map (filter Q) xss)"
  by (induction xss) auto

lemma at_most_once:
  "distinct (map todo_id ts) \<Longrightarrow>
   length (filter (\<lambda>a. alert_for a = i) (concat (fst (scan_passes P nows ts)))) \<le> Suc 0"
proof (induction nows arbitrary: ts)
  case Nil
  show ?case by simp
next
  case (Cons now nows)
  let ?s = "checkNotifications P now ts"
  let ?here = "filter (\<lambda>t. alert_condition P now t \<and> todo_id t = i) ts"
  have d: "distinct (map todo_id (pending ?s))"
    using Cons.prems by (rule pending_distinct)
  have split: "filter (\<lambda>a. alert_for a = i) (concat (fst (scan_passes P (now # nows) ts)))
      = map reminder ?here
        @ filter (\<lambda>a. alert_for a = i) (concat (fst (scan_passes P nows (pending ?s))))"
    by (simp add: Let_def alerts_for_id [OF Cons.prems])
  show ?case
  proof (cases "?here = []")
    case True
    then show ?thesis using Cons.IH [OF d] by (simp only: split) simp
  next
    case False
    then obtain t where t: "t \<in> set ts" "todo_id t = i" "alert_condition P now t"
      by (auto simp: filter_empty_conv)
    have "silenced i (pending ?s)"
      using silenced_after_alert [OF Cons.prems t(1) t(3)] t(2) by simp
    then have "filter (\<lambda>a. alert_for a = i) (concat (fst (scan_passes P nows (pending ?s)))) = []"
      using silenced_passes [OF d, of i P nows]
      by (simp add: filter_concat_map)
    moreover have "length ?here \<le> Suc 0"
      using Cons.prems by (rule filter_key_le1)
    ultimately show ?thesis by (simp only: split) simp
  qed
qed

lemma first_due_pass:
  assumes "alert_condition P now t" and "\<forall>n \<in> set before. \<not> alert_condition P n t"
  shows "distinct (map todo_id ts) \<Longrightarrow> t \<in> set ts \<Longrightarrow>
     map (filter (\<lambda>a. alert_for a = todo_id t)) (fst (scan_passes P (before @ now # after) ts))
       = replicate (length before) [] @ [reminder t] # replicate (length after) []
     \<and> mark_notified t \<in> set (snd (scan_passes P (before @ [now]) ts))"
  using assms(2)
proof (induction before arbitrary: ts)
  case Nil
  let ?s = "checkNotifications P now ts"
  have "silenced (todo_id t) (pending ?s)"
    using Nil.prems assms(1) by (intro silenced_after_alert)
  then have later: "map (filter (\<lambda>a. alert_for a = todo_id t)) (fst (scan_passes P after (pending ?s)))
      = replicate (length after) []"
    using Nil.prems by (intro silenced_passes pending_distinct)
  have here: "filter (\<lambda>a. alert_for a = todo_id t) (alerts ?s) = [reminder t]"
    using Nil.prems assms(1)
    by (simp add: alerts_for_id filter_key_single [where f = todo_id])
  have "mark_notified t \<in> set (pending ?s)"
    using Nil.prems assms(1) by (auto simp: scan_char image_iff)
  with here later show ?case by (simp add: Let_def)
next
  case (Cons n before)
  let ?s = "checkNotifications P n ts"
  have nd: "\<not> alert_condition P n t" using Cons.prems by simp
  have here: "filter (\<lambda>a. alert_for a = todo_id t) (alerts ?s) = []"
    using Cons.prems nd
    by (simp add: alerts_for_id filter_key_none [where f = todo_id])
  have mem: "t \<in> set (pending ?s)"
    using Cons.prems nd by (auto simp: scan_char image_iff)
  have d: "distinct (map todo_id (pending ?s))"
    using Cons.prems by (intro pending_distinct)
  have "\<forall>n \<in> set before. \<not> alert_condition P n t" using Cons.prems by simp
  from Cons.IH [OF d mem this] here show ?case by (simp add: Let_def)
qed

text \<open>
  C2. On a collection with distinct ids, over any run of passes a task gets at most one
  alert. A task that is due at \<open>due\<close>, not completed and not notified gets no alert in the
  passes before \<open>due\<close>, exactly one (its reminder) in the first pass at or after \<open>due\<close>,
  which also sets its notified flag, and none in any later pass.
\<close>

theorem scan_passes_alert_once:
  assumes "distinct (map todo_id ts)"
  shows "length (filter (\<lambda>a. alert_for a = i) (concat (fst (scan_passes P nows ts)))) \<le> 1
       \<and> (t \<in> set ts \<and> dueDate t = Some d \<and> d \<noteq> [] \<and> dueTime t = Some tm \<and> tm \<noteq> []
            \<and> \<not> completed t \<and> notified t \<noteq> Some True \<and> P (d @ ''T'' @ tm) = Some due
            \<and> (\<forall>n \<in> set before. n < due) \<and> due \<le> now
          \<longrightarrow> map (filter (\<lambda>a. alert_for a = todo_id t))
                  (fst (scan_passes P (before @ now # after) ts))
                = replicate (length before) [] @ [reminder t] # replicate (length after) []
              \<and> t\<lparr>notified := Some True\<rparr> \<in> set (snd (scan_passes P (before @ [now]) ts)))"
proof -
  have once: "length (filter (\<lambda>a. alert_for a = i) (concat (fst (scan_passes P nows ts)))) \<le> 1"
    using at_most_once [OF assms, of i P nows] by simp
  have first: "map (filter (\<lambda>a. alert_for a = todo_id t))
                  (fst (scan_passes P (before @ now # after) ts))
                = replicate (length before) [] @ [reminder t] # replicate (length after) []
              \<and> t\<lparr>notified := Some True\<rparr> \<in> set (snd (scan_passes P (before @ [now]) ts))"
    if h: "t \<in> set ts" "dueDate t = Some d" "d \<noteq> []" "dueTime t = Some tm" "tm \<noteq> []"
      "\<not> completed t" "notified t \<noteq> Some True" "P (d @ ''T'' @ tm) = Some due"
      "\<forall>n \<in> set before. n < due" "due \<le> now"
  proof -
    have due_now: "alert_condition P now t"
      using h by (simp add: alert_condition_def)
    have early: "\<forall>n \<in> set before. \<not> alert_condition P n t"
      using h by (auto simp: alert_condition_def)
    show ?thesis
      using first_due_pass [OF due_now early assms h(1), of after]
      by (simp add: mark_notified_def)
  qed
  from once first show ?thesis by blast
qed

theorem scan_passes_alert_once_witness:
  "distinct (map todo_id [call, rent])
   \<and> rent \<in> set [call, rent] \<and> dueDate rent = Some ''2024-01-01'' \<and> dueTime rent = Some ''09:00''
   \<and> \<not> completed rent \<and> notified rent \<noteq> Some True
   \<and> Date_parse_sample (''2024-01-01'' @ ''T'' @ ''09:00'') = Some 1704099600000
   \<and> (1704099540000::int) < 1704099600000
   \<and> map (filter (\<lambda>a. alert_for a = todo_id rent))
       (fst (scan_passes Date_parse_sample
              ([1704099540000] @ 1704099600000 # [1704099660000, 1704099720000]) [call, rent]))
     = [[], [reminder rent], [], []]
   \<and> rent\<lparr>notified := Some True\<rparr>
       \<in> set (snd (scan_passes Date_parse_sample ([1704099540000] @ [1704099600000]) [call, rent]))"
proof -
  have d: "distinct (map todo_id [call, rent])"
    by (simp add: call_def rent_def)
  have h: "rent \<in> set [call, rent] \<and> dueDate rent = Some ''2024-01-01'' \<and> ''2024-01-01'' \<noteq> []
       \<and> dueTime rent = Some ''09:00'' \<and> ''09:00'' \<noteq> []
       \<and> \<not> completed rent \<and> notified rent \<noteq> Some True
       \<and> Date_parse_sample (''2024-01-01'' @ ''T'' @ ''09:00'') = Some 1704099600000
       \<and> (\<forall>n \<in> set [1704099540000]. n < (1704099600000::int))
       \<and> (1704099600000::int) \<le> 1704099600000"
    by (simp add: rent_def Date_parse_sample_def)
  show ?thesis
    using d h
      scan_passes_alert_once [OF d, where P = Date_parse_sample and t = rent
        and d = "''2024-01-01''" and tm = "''09:00''" and due = 1704099600000
        and before = "[1704099540000]" and now = 1704099600000
        and after = "[1704099660000, 1704099720000]"]
    by simp
qed

text \<open>
  C10. A pass has a value for every collection. When the due date and due time of a task
  (ids distinct) do not make a date the parser accepts, the parsed value is the invalid
  date, the comparison with \<open>now\<close> is false, the task gets no alert and stays in the
  collection as it was.
\<close>

theorem unparseable_due_never_alerts:
  assumes "distinct (map todo_id ts)" and "k < length ts"
    and "dueDate (ts ! k) = Some d" and "dueTime (ts ! k) = Some tm"
    and "P (d @ ''T'' @ tm) = None"
  shows "\<not> date_ge now (P (template_string (dueDate (ts ! k)) @ ''T''
                            @ template_string (dueTime (ts ! k))))
       \<and> todo_id (ts ! k) \<notin> alert_for ` set (alerts (checkNotifications P now ts))
       \<and> length (pending (checkNotifications P now ts)) = length ts
       \<and> pending (checkNotifications P now ts) ! k = ts ! k"
proof -
  have n: "\<not> alert_condition P now (ts ! k)"
    using assms(3-5) by (simp add: alert_condition_def)
  have m: "ts ! k \<in> set ts" using assms(2) by simp
  have 1: "\<not> date_ge now (P (template_string (dueDate (ts ! k)) @ ''T''
                              @ template_string (dueTime (ts ! k))))"
    using assms(3-5) by (simp add: template_string_def date_ge_def)
  have 2: "todo_id (ts ! k) \<notin> alert_for ` set (alerts (checkNotifications P now ts))"
    using alerted_ids [OF assms(1) m, of P now] n by (simp add: scan_char [OF assms(1)])
  have 3: "length (pending (checkNotifications P now ts)) = length ts"
    by (simp add: scan_char [OF assms(1)])
  have 4: "pending (checkNotifications P now ts) ! k = ts ! k"
    using assms(2) n by (simp add: scan_char [OF assms(1)])
  from 1 2 3 4 show ?thesis by blast
qed

theorem unparseable_due_never_alerts_witness:
  "distinct (map todo_id [vague, rent]) \<and> (0::nat) < length [vague, rent]
   \<and> dueDate ([vague, rent] ! 0) = Some ''someday'' \<and> dueTime ([vague, rent] ! 0) = Some ''noon''
   \<and> Date_parse_sample (''someday'' @ ''T'' @ ''noon'') = None
   \<and> todo_id vague
       \<notin> alert_for ` set (alerts (checkNotifications Date_parse_sample 1800000000000 [vague, rent]))
   \<and> pending (checkNotifications Date_parse_sample 1800000000000 [vague, rent]) ! 0 = vague"
proof -
  have d: "distinct (map todo_id [vague, rent])" by (simp add: vague_def rent_def)
  have k: "(0::nat) < length [vague, rent]" by simp
  have dd: "dueDate ([vague, rent] ! 0) = Some ''someday''" by (simp add: vague_def)
  have dt: "dueTime ([vague, rent] ! 0) = Some ''noon''" by (simp add: vague_def)
  have p: "Date_parse_sample (''someday'' @ ''T'' @ ''noon'') = None"
    by (simp add: Date_parse_sample_def)
  show ?thesis
    using d k dd dt p
      unparseable_due_never_alerts
        [where P = Date_parse_sample and now = 1800000000000, OF d k dd dt p]
    by simp
qed

section \<open>Edit and create\<close>

text \<open>
  C3. \<open>editTodo\<close> keeps the length and the positions of the collection. At every position
  the id and the creation timestamp stay; a task with another id stays whole; a field
  whose key is not in the update stays, so a notified flag that is true stays true when
  the update has no key \<open>notified\<close>; and on the task with the id a key of the update sets
  its field.
\<close>

theorem editTodo_changes_only_given_fields:
  "length (editTodo i u ts) = length ts
   \<and> (\<forall>k < length ts.
         todo_id (editTodo i u ts ! k) = todo_id (ts ! k)
       \<and> createdAt (editTodo i u ts ! k) = createdAt (ts ! k)
       \<and> (todo_id (ts ! k) \<noteq> i \<longrightarrow> editTodo i u ts ! k = ts ! k)
       \<and> (upd_text u = None \<longrightarrow> todo_text (editTodo i u ts ! k) = todo_text (ts ! k))
       \<and> (upd_completed u = None \<longrightarrow> completed (editTodo i u ts ! k) = completed (ts ! k))
       \<and> (upd_dueDate u = None \<longrightarrow> dueDate (editTodo i u ts ! k) = dueDate (ts ! k))
       \<and> (upd_dueTime u = None \<longrightarrow> dueTime (editTodo i u ts ! k) = dueTime (ts ! k))
       \<and> (upd_notified u = None \<longrightarrow> notified (editTodo i u ts ! k) = notified (ts ! k))
       \<and> (upd_notified u = None \<and> notified (ts ! k) = Some True
            \<longrightarrow> notified (editTodo i u ts ! k) = Some True)
       \<and> (todo_id (ts ! k) = i \<longrightarrow>
            (\<forall>v. upd_text u = Some v \<longrightarrow> todo_text (editTodo i u ts ! k) = v)
          \<and> (\<forall>v. upd_completed u = Some v \<longrightarrow> completed (editTodo i u ts ! k) = v)
          \<and> (\<forall>v. upd_dueDate u = Some v \<longrightarrow> dueDate (editTodo i u ts ! k) = v)
          \<and> (\<forall>v. upd_dueTime u = Some v \<longrightarrow> dueTime (editTodo i u ts ! k) = v)
          \<and> (\<forall>v. upd_notified u = Some v \<longrightarrow> notified (editTodo i u ts ! k) = v)))"
  by (simp add: editTodo_def spread_updates_def)

theorem editTodo_changes_only_given_fields_witness:
  "(1::nat) < length [call, rent\<lparr>notified := Some True\<rparr>]
   \<and> upd_notified \<lparr>upd_text = Some ''Pay the rent'', upd_completed = None,
                    upd_dueDate = None, upd_dueTime = None, upd_notified = None\<rparr> = None
   \<and> notified ([call, rent\<lparr>notified := Some True\<rparr>] ! 1) = Some True
   \<and> editTodo ''a1'' \<lparr>upd_text = Some ''Pay the rent'', upd_completed = None,
                       upd_dueDate = None, upd_dueTime = None, upd_notified = None\<rparr>
        [call, rent\<lparr>notified := Some True\<rparr>]
     = [call, rent\<lparr>todo_text := ''Pay the rent'', notified := Some True\<rparr>]"
  using editTodo_changes_only_given_fields
    [of "''a1''" "\<lparr>upd_text = Some ''Pay the rent'', upd_completed = None,
                    upd_dueDate = None, upd_dueTime = None, upd_notified = None\<rparr>"
        "[call, rent\<lparr>notified := Some True\<rparr>]"]
  by (simp add: editTodo_def spread_updates_def call_def rent_def)

text \<open>
  C8. \<open>addTodo\<close> puts one new task in front of the collection and leaves the rest as it
  was, ids and creation timestamps included. The new task has the id drawn from
  \<open>crypto.randomUUID()\<close>, the time of \<open>Date.now()\<close>, the given text and due fields,
  completed false and notified false. When the drawn id is not in the collection, ids
  that were distinct stay distinct.
\<close>

theorem addTodo_prepends_fresh_task:
  "(\<exists>new. addTodo u n txt d tm ts = new # ts
       \<and> todo_id new = u \<and> createdAt new = n \<and> todo_text new = txt
       \<and> dueDate new = d \<and> dueTime new = tm
       \<and> completed new = False \<and> notified new = Some False)
   \<and> map todo_id (tl (addTodo u n txt d tm ts)) = map todo_id ts
   \<and> map createdAt (tl (addTodo u n txt d tm ts)) = map createdAt ts
   \<and> (distinct (map todo_id ts) \<and> u \<notin> set (map todo_id ts)
        \<longrightarrow> distinct (map todo_id (addTodo u n txt d tm ts)))"
  by (simp add: addTodo_def)

theorem addTodo_prepends_fresh_task_witness:
  "distinct (map todo_id [call, rent]) \<and> ''d4'' \<notin> set (map todo_id [call, rent])
   \<and> distinct (map todo_id
        (addTodo ''d4'' 1700000002000 ''Buy milk'' (Some ''2024-02-01'') None [call, rent]))
   \<and> tl (addTodo ''d4'' 1700000002000 ''Buy milk'' (Some ''2024-02-01'') None [call, rent])
       = [call, rent]"
  using addTodo_prepends_fresh_task
    [of "''d4''" 1700000002000 "''Buy milk''" "Some ''2024-02-01''" None "[call, rent]"]
  by (simp add: addTodo_def call_def rent_def)

section \<open>Load and save\<close>

text \<open>
  C5, as stated, at the empty stored text: \<open>JSON.parse\<close> throws on it, and the load effect
  leaves it in the slot.
\<close>

theorem load_effect_keeps_empty_text:
  "JSON_parse_sample [] = Inl SyntaxError
   \<and> slot (load_effect JSON_parse_sample (initial (Some []))) \<noteq> None"
  by (simp add: load_effect_def initial_def JSON_parse_sample_def rent_json_def)

text \<open>
  C5, amended. On a fresh mount the load effect ends with the empty collection when the
  slot is absent and when it holds the empty text, and leaves the slot as it is; when the
  stored text is not empty and \<open>JSON.parse\<close> throws on it, the effect clears the slot and
  ends with the empty collection. In each case the effect ends in a state: the failure
  does not leave it.
\<close>

theorem load_effect_recovers:
  "load_effect P (initial None) = \<lparr>todos = [], isMounted = True, slot = None\<rparr>
   \<and> load_effect P (initial (Some [])) = \<lparr>todos = [], isMounted = True, slot = Some []\<rparr>
   \<and> (stored \<noteq> [] \<and> P stored = Inl e
        \<longrightarrow> load_effect P (initial (Some stored))
            = \<lparr>todos = [], isMounted = True, slot = None\<rparr>)"
  by (simp add: load_effect_def initial_def)

theorem load_effect_recovers_witness:
  "''{oops'' \<noteq> [] \<and> JSON_parse_sample ''{oops'' = Inl SyntaxError
   \<and> load_effect JSON_parse_sample (initial (Some ''{oops''))
       = \<lparr>todos = [], isMounted = True, slot = None\<rparr>"
proof -
  have h: "''{oops'' \<noteq> [] \<and> JSON_parse_sample ''{oops'' = Inl SyntaxError"
    by (simp add: JSON_parse_sample_def rent_json_def)
  show ?thesis
    using h load_effect_recovers [of JSON_parse_sample "''{oops''" SyntaxError] by simp
qed

section \<open>The JSON text of a value parses back to it\<close>

subsection \<open>Strings\<close>

lemma hex_value_hex_char: "k < 16 \<Longrightarrow> hex_value (hex_char k) = Some k"
  by (auto simp: hex_value_def hex_char_def Let_def)

lemma hex_value_zero: "hex_value (CHR ''0'') = Some 0"
  by (simp add: hex_value_def)

lemma code_unit_low:
  assumes "(of_char c :: nat) < 32"
  shows "code_unit (CHR ''0'') (CHR ''0'') (hex_char (of_char c div 16)) (hex_char (of_char c mod 16))
         = Some (Some c)"
proof -
  have a: "(of_char c :: nat) div 16 < 16" using assms by simp
  have b: "(of_char c :: nat) mod 16 < 16" by simp
  have "(of_char c :: nat) div 16 * 16 + of_char c mod 16 = of_char c" by simp
  then show ?thesis
    using assms by (simp add: code_unit_def hex_value_zero hex_value_hex_char [OF a]
        hex_value_hex_char [OF b] Let_def)
qed

lemma scan_string_quote_char:
  "scan_string (quote_char c @ rest) = cons_unit (Some c) (scan_string rest)"
proof -
  consider (b) "c = CHR 0x08" | (t) "c = CHR 0x09" | (n) "c = CHR 0x0A" | (f) "c = CHR 0x0C"
    | (r) "c = CHR 0x0D" | (q) "c = CHR 0x22" | (s) "c = CHR 0x5C"
    | (u) "c \<noteq> CHR 0x08" "c \<noteq> CHR 0x09" "c \<noteq> CHR 0x0A" "c \<noteq> CHR 0x0C" "c \<noteq> CHR 0x0D"
          "c \<noteq> CHR 0x22" "c \<noteq> CHR 0x5C" "(of_char c :: nat) < 32"
    | (l) "c \<noteq> CHR 0x22" "c \<noteq> CHR 0x5C" "\<not> (of_char c :: nat) < 32"
          "c \<noteq> CHR 0x08" "c \<noteq> CHR 0x09" "c \<noteq> CHR 0x0A" "c \<noteq> CHR 0x0C" "c \<noteq> CHR 0x0D"
    by blast
  then show ?thesis
  proof cases
    case u
    then show ?thesis by (simp add: quote_char_def code_unit_low)
  next
    case l
    then show ?thesis by (simp add: quote_char_def)
  qed (simp_all add: quote_char_def simple_escape_def)
qed

lemma scan_string_quoted:
  "scan_string (concat (map quote_char s) @ CHR 0x22 # rest) = Some (Some s, rest)"
  by (induction s) (simp_all add: scan_string_quote_char cons_unit_def)

lemma scan_string_shorter: "scan_string s = Some (x, rest) \<Longrightarrow> length rest < length s"
proof (induction s arbitrary: x rest rule: scan_string.induct)
  case 1
  then show ?case by simp
next
  case (2 c cs)
  show ?case
    using "2.prems" "2.IH"
    by (fastforce simp: cons_unit_def split: if_splits list.splits option.splits prod.splits)
qed

subsection \<open>Numbers\<close>

lemma char_of_48: "char_of (48::nat) = CHR ''0''"
  by (simp add: char_of_eq_iff)

lemma is_digit_char: "(d::nat) < 10 \<Longrightarrow> is_digit (char_of (48 + d))"
  by (simp add: is_digit_def)

lemma digits_not_Nil: "digits n \<noteq> []"
  by (subst digits.simps) simp

lemma digits_all: "list_all is_digit (digits n)"
proof (induction n rule: digits.induct)
  case (1 n)
  show ?case
  proof (cases "n < 10")
    case True
    then show ?thesis by (subst digits.simps) (simp add: is_digit_char)
  next
    case False
    then show ?thesis
      using "1.IH" by (subst digits.simps) (simp add: is_digit_char)
  qed
qed

lemma digits_value_snoc: "digits_value (ds @ [c]) = 10 * digits_value ds + (of_char c - 48)"
  by (simp add: digits_value_def)

lemma digits_value_digits: "digits_value (digits n) = n"
proof (induction n rule: digits.induct)
  case (1 n)
  show ?case
  proof (cases "n < 10")
    case True
    then show ?thesis by (subst digits.simps) (simp add: digits_value_def)
  next
    case False
    then have "digits_value (digits (n div 10)) = n div 10" using "1.IH" by simp
    with False show ?thesis
      by (subst digits.simps) (simp add: digits_value_snoc)
  qed
qed

lemma hd_digits: "(hd (digits n) = CHR ''0'') = (n = 0)"
proof (induction n rule: digits.induct)
  case (1 n)
  show ?case
  proof (cases "n < 10")
    case True
    have "(char_of (48 + n) = CHR ''0'') = (n = 0)"
    proof
      assume "char_of (48 + n) = CHR ''0''"
      then have "(of_char (char_of (48 + n) :: char) :: nat) = of_char (CHR ''0'')" by simp
      with True show "n = 0" by simp
    qed (simp add: char_of_48)
    with True show ?thesis by (subst digits.simps) simp
  next
    case False
    then have "(hd (digits (n div 10)) = CHR ''0'') = (n div 10 = 0)" using "1.IH" by simp
    with False show ?thesis
      by (subst digits.simps) (simp add: digits_not_Nil)
  qed
qed

lemma takeWhile_digits:
  "number_end rest \<Longrightarrow> takeWhile is_digit (digits n @ rest) = digits n"
  using digits_all [of n]
  by (cases rest) (simp_all add: number_end_def list_all_iff)

lemma scan_fraction_end: "number_end rest \<Longrightarrow> scan_fraction rest = Some (False, rest)"
  by (cases rest) (simp_all add: number_end_def scan_fraction_def)

lemma scan_exponent_end: "number_end rest \<Longrightarrow> scan_exponent rest = Some (False, rest)"
  by (cases rest) (simp_all add: number_end_def scan_exponent_def)

lemma digits_cases: "\<exists>c cs. digits n = c # cs \<and> is_digit c \<and> c \<noteq> CHR ''-'' \<and> ((c = CHR ''0'') = (n = 0))"
  using digits_not_Nil [of n] digits_all [of n] hd_digits [of n]
  by (cases "digits n") (auto simp: is_digit_def)

lemma digits_zero: "digits 0 = ''0''"
  by (subst digits.simps) (simp add: char_of_48)

lemma scan_digits:
  assumes "number_end rest" and "n \<le> 9007199254740992"
  shows "scan_number (digits n @ rest) = Some (Some (JNumber (int n)), rest)"
proof -
  obtain c cs where d: "digits n = c # cs" "is_digit c" "c \<noteq> CHR ''-''" "(c = CHR ''0'') = (n = 0)"
    using digits_cases by blast
  show ?thesis
  proof (cases "n = 0")
    case True
    then show ?thesis
      using assms(1) by (simp add: digits_zero scan_number_def scan_fraction_end scan_exponent_end
          digits_value_def)
  next
    case False
    have tw: "takeWhile is_digit ((c # cs) @ rest) = c # cs"
      using takeWhile_digits [OF assms(1), of n] d(1) by simp
    have dv: "digits_value (c # cs) = n"
      using digits_value_digits [of n] d(1) by simp
    from False d have c0: "c \<noteq> CHR ''0''" by simp
    have "scan_number ((c # cs) @ rest) = Some (Some (JNumber (int n)), rest)"
      unfolding scan_number_def
      using tw dv c0 d(3) assms
      by (simp add: Let_def scan_fraction_end scan_exponent_end del: takeWhile.simps)
    then show ?thesis by (simp add: d(1))
  qed
qed

lemma scan_minus_digits:
  assumes "number_end rest" and "0 < n" and "n \<le> 9007199254740992"
  shows "scan_number (CHR ''-'' # digits n @ rest) = Some (Some (JNumber (- int n)), rest)"
proof -
  obtain c cs where d: "digits n = c # cs" "is_digit c" "c \<noteq> CHR ''-''" "(c = CHR ''0'') = (n = 0)"
    using digits_cases by blast
  have tw: "takeWhile is_digit ((c # cs) @ rest) = c # cs"
    using takeWhile_digits [OF assms(1), of n] d(1) by simp
  have dv: "digits_value (c # cs) = n"
    using digits_value_digits [of n] d(1) by simp
  from assms(2) d have c0: "c \<noteq> CHR ''0''" by simp
  have "scan_number (CHR ''-'' # (c # cs) @ rest) = Some (Some (JNumber (- int n)), rest)"
    unfolding scan_number_def
    using tw dv c0 assms
    by (simp add: Let_def scan_fraction_end scan_exponent_end del: takeWhile.simps)
  then show ?thesis by (simp add: d(1))
qed

lemma scan_number_text:
  assumes "number_end rest" and "\<bar>n\<bar> \<le> 9007199254740992"
  shows "scan_number (number_text n @ rest) = Some (Some (JNumber n), rest)"
proof (cases "n < 0")
  case True
  then show ?thesis
    using scan_minus_digits [OF assms(1), of "nat (- n)"] assms(2)
    by (simp add: number_text_def)
next
  case False
  then show ?thesis
    using scan_digits [OF assms(1), of "nat n"] assms(2)
    by (simp add: number_text_def)
qed

lemma number_text_cases:
  "\<exists>c cs. number_text n = c # cs \<and> (c = CHR ''-'' \<or> is_digit c)"
  using digits_cases [of "nat n"] digits_cases [of "nat (- n)"]
  by (auto simp: number_text_def)

subsection \<open>Values\<close>

lemma delimited_simps [simp]:
  "delimited []" "delimited (CHR '','' # s)" "delimited (CHR '']'' # s)" "delimited (CHR ''}'' # s)"
  by (simp_all add: delimited_def)

lemma delimited_number_end: "delimited rest \<Longrightarrow> number_end rest"
  by (cases rest) (auto simp: delimited_def number_end_def is_digit_def)

lemma skip_ws_Cons: "\<not> is_ws c \<Longrightarrow> skip_ws (c # cs) = c # cs"
  by (simp add: skip_ws_def)

lemma skip_ws_marks [simp]:
  "skip_ws (CHR '','' # s) = CHR '','' # s" "skip_ws (CHR '']'' # s) = CHR '']'' # s"
  "skip_ws (CHR ''}'' # s) = CHR ''}'' # s" "skip_ws (CHR '':'' # s) = CHR '':'' # s"
  "skip_ws (CHR 0x22 # s) = CHR 0x22 # s" "skip_ws [] = []"
  by (simp_all add: skip_ws_def is_ws_def)

lemma is_digit_starts: "is_digit c \<Longrightarrow> starts_value c"
  by (auto simp: is_digit_def starts_value_def is_ws_def)

lemma stringify_head:
  "\<exists>c cs. JSON_stringify_value v = c # cs \<and> starts_value c"
proof (cases v)
  case (JNumber n)
  then show ?thesis
    using number_text_cases [of n] by (auto simp: is_digit_starts) (simp add: starts_value_def is_ws_def)
qed (auto simp: starts_value_def is_ws_def quote_string_def)

lemma elements_head:
  "vs \<noteq> [] \<Longrightarrow> \<exists>c cs. stringify_elements vs = c # cs \<and> starts_value c"
proof (cases vs)
  case (Cons v ws)
  obtain c cs where "JSON_stringify_value v = c # cs" "starts_value c"
    using stringify_head by blast
  with Cons show ?thesis by (cases ws) auto
qed simp

lemma members_head:
  "kvs \<noteq> [] \<Longrightarrow> \<exists>cs. stringify_members kvs = CHR 0x22 # cs"
proof (cases kvs)
  case (Cons m ms)
  then show ?thesis by (cases m; cases ms) (auto simp: quote_string_def)
qed simp

lemma parse_keyword [simp]:
  "keyword w v (w @ rest) = Ok (Some v) rest"
  by (simp add: keyword_def)

lemma parse_scalar:
  assumes "delimited rest"
  shows "parse_value (Suc f) (JSON_stringify_value JNull @ rest) = Ok (Some JNull) rest"
    and "parse_value (Suc f) (JSON_stringify_value (JBool b) @ rest) = Ok (Some (JBool b)) rest"
    and "parse_value (Suc f) (JSON_stringify_value (JString s) @ rest) = Ok (Some (JString s)) rest"
    and "\<bar>n\<bar> \<le> 9007199254740992 \<Longrightarrow>
         parse_value (Suc f) (JSON_stringify_value (JNumber n) @ rest) = Ok (Some (JNumber n)) rest"
proof -
  have kw: "\<And>w v. keyword w v (w @ rest) = Ok (Some v) rest" by simp
  show "parse_value (Suc f) (JSON_stringify_value JNull @ rest) = Ok (Some JNull) rest"
    using kw [of "''null''" JNull] by (simp add: skip_ws_def is_ws_def is_digit_def)
  show "parse_value (Suc f) (JSON_stringify_value (JBool b) @ rest) = Ok (Some (JBool b)) rest"
    using kw [of "''true''" "JBool True"] kw [of "''false''" "JBool False"]
    by (simp add: skip_ws_def is_ws_def is_digit_def)
  show "parse_value (Suc f) (JSON_stringify_value (JString s) @ rest) = Ok (Some (JString s)) rest"
    by (simp add: quote_string_def scan_string_quoted scanned_def wrap_def)
  show "parse_value (Suc f) (JSON_stringify_value (JNumber n) @ rest) = Ok (Some (JNumber n)) rest"
    if n: "\<bar>n\<bar> \<le> 9007199254740992"
  proof -
    obtain c cs where t: "number_text n = c # cs" "c = CHR ''-'' \<or> is_digit c"
      using number_text_cases by blast
    have s: "scan_number (c # cs @ rest) = Some (Some (JNumber n), rest)"
      using scan_number_text [OF delimited_number_end [OF assms] n] t(1) by simp
    have w: "\<not> is_ws c" "c \<noteq> CHR ''[''" "c \<noteq> CHR ''{''" "c \<noteq> CHR 0x22"
      using t(2) by (auto simp: is_ws_def is_digit_def)
    show ?thesis
      using t w s by (simp add: skip_ws_Cons scanned_def)
  qed
qed

lemma parse_array_start:
  assumes "starts_value d"
  shows "parse_value (Suc f) (CHR ''['' # d # ds) = wrap JArray (parse_elements f (d # ds))"
  using assms by (simp add: starts_value_def skip_ws_Cons skip_ws_def [of "CHR ''['' # d # ds"] is_ws_def)

lemma parse_object_start:
  "parse_value (Suc f) (CHR ''{'' # CHR 0x22 # ds) = wrap JObject (parse_members f (CHR 0x22 # ds))"
  by (simp add: skip_ws_def [of "CHR ''{'' # CHR 0x22 # ds"] is_ws_def)

lemma parse_empty:
  "parse_value (Suc f) (''[]'' @ rest) = Ok (Some (JArray [])) rest"
  "parse_value (Suc f) (''{}'' @ rest) = Ok (Some (JObject [])) rest"
  by (simp_all add: skip_ws_def [of "CHR ''['' # _"] skip_ws_def [of "CHR ''{'' # _"] is_ws_def)

lemma parse_elements_last:
  assumes "parse_value f (s @ CHR '']'' # rest) = Ok (Some v) (CHR '']'' # rest)"
  shows "parse_elements (Suc f) (s @ CHR '']'' # rest) = Ok (Some [v]) rest"
  using assms by simp

lemma parse_elements_more:
  assumes "parse_value f (s @ CHR '','' # t) = Ok (Some v) (CHR '','' # t)"
    and "parse_elements f t = Ok (Some vs) rest"
  shows "parse_elements (Suc f) (s @ CHR '','' # t) = Ok (Some (v # vs)) rest"
  using assms by (simp add: cons_value_def)

lemma parse_members_last:
  assumes "parse_value f (s @ CHR ''}'' # rest) = Ok (Some v) (CHR ''}'' # rest)"
  shows "parse_members (Suc f) (quote_string k @ CHR '':'' # s @ CHR ''}'' # rest) = Ok (Some [(k, v)]) rest"
  using assms by (simp add: quote_string_def scan_string_quoted make_member_def)

lemma parse_members_more:
  assumes "parse_value f (s @ CHR '','' # t) = Ok (Some v) (CHR '','' # t)"
    and "parse_members f t = Ok (Some kvs) rest"
  shows "parse_members (Suc f) (quote_string k @ CHR '':'' # s @ CHR '','' # t) = Ok (Some ((k, v) # kvs)) rest"
  using assms by (simp add: quote_string_def scan_string_quoted make_member_def cons_member_def)

text \<open>
  With fuel above twice the length of the printed text, the parser reads the text of a
  value back to the value and stops where the text stops.
\<close>

lemma roundtrip_fuel:
  "representable v \<Longrightarrow> delimited rest \<Longrightarrow> 2 * length (JSON_stringify_value v) < f \<Longrightarrow>
     parse_value f (JSON_stringify_value v @ rest) = Ok (Some v) rest"
  "representable_elements vs \<Longrightarrow> vs \<noteq> [] \<Longrightarrow> 2 * length (stringify_elements vs) + 1 < f \<Longrightarrow>
     parse_elements f (stringify_elements vs @ CHR '']'' # rest) = Ok (Some vs) rest"
  "representable_members kvs \<Longrightarrow> kvs \<noteq> [] \<Longrightarrow> 2 * length (stringify_members kvs) + 1 < f \<Longrightarrow>
     parse_members f (stringify_members kvs @ CHR ''}'' # rest) = Ok (Some kvs) rest"
proof (induction v and vs and kvs arbitrary: f rest and f rest and f rest
    rule: JSON_stringify_value_stringify_elements_stringify_members.induct)
  case 1
  then obtain g where "f = Suc g" by (cases f) auto
  with 1 show ?case using parse_scalar(1) by simp
next
  case (2 b)
  then obtain g where "f = Suc g" by (cases f) auto
  with 2 show ?case using parse_scalar(2) by simp
next
  case (3 n)
  then obtain g where "f = Suc g" by (cases f) auto
  with 3 show ?case using parse_scalar(4) by simp
next
  case (4 s)
  then obtain g where "f = Suc g" by (cases f) auto
  with 4 show ?case using parse_scalar(3) by simp
next
  case (5 vs)
  then obtain g where g: "f = Suc g" by (cases f) auto
  show ?case
  proof (cases "vs = []")
    case True
    then show ?thesis using parse_empty(1) [of g rest] g by simp
  next
    case False
    obtain d ds where h: "stringify_elements vs = d # ds" "starts_value d"
      using elements_head [OF False] by blast
    have "parse_elements g (stringify_elements vs @ CHR '']'' # rest) = Ok (Some vs) rest"
      using "5.prems" False g by (intro "5.IH") auto
    then show ?thesis
      using parse_array_start [OF h(2), of g "ds @ CHR '']'' # rest"] h(1) g
      by (simp add: wrap_def)
  qed
next
  case (6 kvs)
  then obtain g where g: "f = Suc g" by (cases f) auto
  show ?case
  proof (cases "kvs = []")
    case True
    then show ?thesis using parse_empty(2) [of g rest] g by simp
  next
    case False
    obtain ds where h: "stringify_members kvs = CHR 0x22 # ds"
      using members_head [OF False] by blast
    have "parse_members g (stringify_members kvs @ CHR ''}'' # rest) = Ok (Some kvs) rest"
      using "6.prems" False g by (intro "6.IH") auto
    then show ?thesis
      using parse_object_start [of g "ds @ CHR ''}'' # rest"] h g
      by (simp add: wrap_def)
  qed
next
  case 7
  then show ?case by simp
next
  case (8 v)
  then obtain g where g: "f = Suc g" by (cases f) auto
  have "parse_value g (JSON_stringify_value v @ CHR '']'' # rest) = Ok (Some v) (CHR '']'' # rest)"
    using "8.prems" g by (intro "8.IH") auto
  then show ?case
    using parse_elements_last g by simp
next
  case (9 v w vs)
  then obtain g where g: "f = Suc g" by (cases f) auto
  let ?t = "stringify_elements (w # vs) @ CHR '']'' # rest"
  have a: "parse_value g (JSON_stringify_value v @ CHR '','' # ?t) = Ok (Some v) (CHR '','' # ?t)"
    using "9.prems" g by (intro "9.IH"(1)) auto
  have b: "parse_elements g ?t = Ok (Some (w # vs)) rest"
    using "9.prems" g by (intro "9.IH"(2)) auto
  show ?case
    using parse_elements_more [OF a b] g by simp
next
  case 10
  then show ?case by simp
next
  case (11 k v)
  then obtain g where g: "f = Suc g" by (cases f) auto
  have "parse_value g (JSON_stringify_value v @ CHR ''}'' # rest) = Ok (Some v) (CHR ''}'' # rest)"
    using "11.prems" g by (intro "11.IH") auto
  then show ?case
    using parse_members_last [of g "JSON_stringify_value v" rest v k] g by simp
next
  case (12 k v m kvs)
  then obtain g where g: "f = Suc g" by (cases f) auto
  let ?t = "stringify_members (m # kvs) @ CHR ''}'' # rest"
  have a: "parse_value g (JSON_stringify_value v @ CHR '','' # ?t) = Ok (Some v) (CHR '','' # ?t)"
    using "12.prems" g by (intro "12.IH"(1)) auto
  have b: "parse_members g ?t = Ok (Some (m # kvs)) rest"
    using "12.prems" g by (intro "12.IH"(2)) auto
  show ?case
    using parse_members_more [OF a b, of k] g by simp
qed

lemma JSON_roundtrip:
  assumes "representable v"
  shows "JSON_parse_value (JSON_stringify_value v) = Inr (Some v)"
  using roundtrip_fuel(1) [OF assms, of "[]" "2 * length (JSON_stringify_value v) + 2"]
  by (simp add: JSON_parse_value_def)

subsection \<open>The fuel of the parser is enough\<close>

lemma skip_ws_length: "length (skip_ws s) \<le> length s"
  by (simp add: skip_ws_def length_dropWhile_le)

lemma skip_ws_ConsD: "skip_ws s = c # cs \<Longrightarrow> length cs < length s"
  using skip_ws_length [of s] by simp

lemma wrap_OkD: "wrap g r = Ok x rest \<Longrightarrow> \<exists>y. r = Ok y rest"
  by (cases r) (simp_all add: wrap_def)

lemma wrap_fuel [simp]: "(wrap g r = OutOfFuel) = (r = OutOfFuel)"
  by (cases r) (simp_all add: wrap_def)

lemma cons_value_OkD: "cons_value v r = Ok x rest \<Longrightarrow> \<exists>y. r = Ok y rest"
  by (cases r) (simp_all add: cons_value_def)

lemma cons_value_fuel [simp]: "(cons_value v r = OutOfFuel) = (r = OutOfFuel)"
  by (cases r) (simp_all add: cons_value_def)

lemma cons_member_OkD: "cons_member m r = Ok x rest \<Longrightarrow> \<exists>y. r = Ok y rest"
  by (cases r) (simp_all add: cons_member_def)

lemma cons_member_fuel [simp]: "(cons_member m r = OutOfFuel) = (r = OutOfFuel)"
  by (cases r) (simp_all add: cons_member_def)

lemma scanned_OkD: "scanned r = Ok x rest \<Longrightarrow> r = Some (x, rest)"
  by (cases r) (auto simp: scanned_def)

lemma scanned_fuel [simp]: "scanned r \<noteq> OutOfFuel"
  by (cases r) (auto simp: scanned_def)

lemma keyword_OkD: "keyword w v s = Ok x rest \<Longrightarrow> w \<noteq> [] \<Longrightarrow> length rest < length s"
  by (cases s) (auto simp: keyword_def split: if_splits)

lemma keyword_fuel [simp]: "keyword w v s \<noteq> OutOfFuel"
  by (simp add: keyword_def)

lemma scan_fraction_length: "scan_fraction s = Some (b, r) \<Longrightarrow> length r \<le> length s"
  using length_dropWhile_le [of is_digit "tl s"]
  by (cases s) (auto simp: scan_fraction_def split: if_splits)

lemma scan_exponent_length: "scan_exponent s = Some (b, r) \<Longrightarrow> length r \<le> length s"
proof (cases s)
  case Nil
  then show "scan_exponent s = Some (b, r) \<Longrightarrow> length r \<le> length s"
    by (simp add: scan_exponent_def)
next
  case (Cons c t)
  assume a: "scan_exponent s = Some (b, r)"
  show "length r \<le> length s"
  proof (cases "c = CHR ''e'' \<or> c = CHR ''E''")
    case False
    with a Cons show ?thesis by (auto simp: scan_exponent_def)
  next
    case True
    define r1 where "r1 = (case t of [] \<Rightarrow> [] | g # r2 \<Rightarrow> if g = CHR ''+'' \<or> g = CHR ''-'' then r2 else t)"
    have "length r1 \<le> length t" by (cases t) (auto simp: r1_def)
    moreover have "r = dropWhile is_digit r1"
      using a Cons True by (auto simp: scan_exponent_def r1_def Let_def split: if_splits)
    ultimately show ?thesis
      using length_dropWhile_le [of is_digit r1] Cons by simp
  qed
qed

lemma scan_number_shorter:
  assumes a: "scan_number s = Some (x, rest)"
  shows "length rest < length s"
proof -
  define neg where "neg = (case s of [] \<Rightarrow> False | c # _ \<Rightarrow> c = CHR ''-'')"
  define s1 where "s1 = (if neg then tl s else s)"
  define ds where "ds = (case s1 of [] \<Rightarrow> [] | c # _ \<Rightarrow> if c = CHR ''0'' then [c] else takeWhile is_digit s1)"
  have l1: "length s1 \<le> length s" by (simp add: s1_def)
  have l2: "length ds \<le> length s1"
    using length_takeWhile_le [of is_digit s1] by (cases s1) (auto simp: ds_def)
  have u: "scan_number s =
     (if ds = [] then None
      else (case scan_fraction (drop (length ds) s1) of
              None \<Rightarrow> None
            | Some (frac, s2) \<Rightarrow>
                (case scan_exponent s2 of
                   None \<Rightarrow> None
                 | Some (ex, s3) \<Rightarrow>
                     Some (if frac \<or> ex \<or> (neg \<and> digits_value ds = 0)
                              \<or> 9007199254740992 < digits_value ds
                           then None
                           else Some (JNumber (if neg then - int (digits_value ds)
                                               else int (digits_value ds))),
                           s3))))"
    unfolding scan_number_def Let_def ds_def s1_def neg_def by (rule refl)
  from a u have ne: "ds \<noteq> []"
    by (auto split: if_splits)
  from a u ne obtain fr s2 ex where
    f: "scan_fraction (drop (length ds) s1) = Some (fr, s2)" and e: "scan_exponent s2 = Some (ex, rest)"
    by (auto split: option.splits prod.splits if_splits)
  have "length rest \<le> length s2" using scan_exponent_length [OF e] .
  also have "\<dots> \<le> length (drop (length ds) s1)" using scan_fraction_length [OF f] .
  also have "\<dots> < length s1" using ne l2 by (cases ds) auto
  finally show ?thesis using l1 by simp
qed

text \<open>Every parsing function that succeeds has read at least one character.\<close>

lemma parse_shorter:
  "parse_value f s = Ok v r \<Longrightarrow> length r < length s"
  "parse_elements f s = Ok vs r \<Longrightarrow> length r < length s"
  "parse_members f s = Ok kvs r \<Longrightarrow> length r < length s"
proof (induction f s and f s and f s arbitrary: v r and vs r and kvs r
    rule: parse_value_parse_elements_parse_members.induct)
  case (1 s)
  then show ?case by simp
next
  case (2 fuel s)
  from "2.prems" obtain c cs where sk: "skip_ws s = c # cs"
    by (cases "skip_ws s") auto
  note len = skip_ws_ConsD [OF sk]
  consider (arr) "c = CHR ''[''" | (obj) "c \<noteq> CHR ''[''" "c = CHR ''{''"
    | (str) "c \<noteq> CHR ''[''" "c \<noteq> CHR ''{''" "c = CHR 0x22"
    | (other) "c \<noteq> CHR ''[''" "c \<noteq> CHR ''{''" "c \<noteq> CHR 0x22"
    by blast
  then show ?case
  proof cases
    case arr
    from "2.prems" sk arr obtain d ds where sk2: "skip_ws cs = d # ds"
      by (cases "skip_ws cs") auto
    note len2 = skip_ws_ConsD [OF sk2]
    show ?thesis
    proof (cases "d = CHR '']''")
      case True
      with "2.prems" sk arr sk2 have "r = ds" by simp
      with len len2 show ?thesis by simp
    next
      case False
      with "2.prems" sk arr sk2 obtain y where "parse_elements fuel (d # ds) = Ok y r"
        by (auto dest: wrap_OkD)
      from "2.IH"(1) [OF sk arr sk2 False this] len len2 sk2 skip_ws_length [of cs]
      show ?thesis by simp
    qed
  next
    case obj
    from "2.prems" sk obj obtain d ds where sk2: "skip_ws cs = d # ds"
      by (cases "skip_ws cs") auto
    note len2 = skip_ws_ConsD [OF sk2]
    show ?thesis
    proof (cases "d = CHR ''}''")
      case True
      with "2.prems" sk obj sk2 have "r = ds" by simp
      with len len2 show ?thesis by simp
    next
      case False
      with "2.prems" sk obj sk2 obtain y where "parse_members fuel (d # ds) = Ok y r"
        by (auto dest: wrap_OkD)
      from "2.IH"(2) [OF sk obj sk2 False this] len len2 sk2 skip_ws_length [of cs]
      show ?thesis by simp
    qed
  next
    case str
    with "2.prems" sk obtain y where "scan_string cs = Some (y, r)"
      by (auto dest!: wrap_OkD scanned_OkD)
    from scan_string_shorter [OF this] len show ?thesis by simp
  next
    case other
    with "2.prems" sk have "length r < length (c # cs)"
      by (auto dest!: scanned_OkD scan_number_shorter keyword_OkD split: if_splits)
    with sk skip_ws_length [of s] show ?thesis by simp
  qed
next
  case (3 s)
  then show ?case by simp
next
  case (4 fuel s)
  from "4.prems" obtain v0 r0 where pv: "parse_value fuel s = Ok v0 r0"
    by (cases "parse_value fuel s") auto
  note l0 = "4.IH"(1) [OF pv]
  from "4.prems" pv obtain c cs where sk: "skip_ws r0 = c # cs"
    by (cases "skip_ws r0") auto
  note l1 = skip_ws_ConsD [OF sk]
  show ?case
  proof (cases "c = CHR '',''")
    case True
    with "4.prems" pv sk obtain y where pe: "parse_elements fuel cs = Ok y r"
      by (auto dest: cons_value_OkD)
    from "4.IH"(2) [OF pv sk True pe] l0 l1 show ?thesis by simp
  next
    case False
    with "4.prems" pv sk have "r = cs" by (auto split: if_splits)
    with l0 l1 show ?thesis by simp
  qed
next
  case (5 s)
  then show ?case by simp
next
  case (6 fuel s)
  from "6.prems" obtain q cs where sk: "skip_ws s = q # cs"
    by (cases "skip_ws s") auto
  note l0 = skip_ws_ConsD [OF sk]
  from "6.prems" sk have q: "\<not> q \<noteq> CHR 0x22" by (auto split: if_splits)
  from "6.prems" sk q obtain k r1 where ss: "scan_string cs = Some (k, r1)"
    by (cases "scan_string cs") auto
  note l1 = scan_string_shorter [OF ss]
  from "6.prems" sk q ss obtain c r2 where sk2: "skip_ws r1 = c # r2"
    by (cases "skip_ws r1") auto
  note l2 = skip_ws_ConsD [OF sk2]
  from "6.prems" sk q ss sk2 have c: "\<not> c \<noteq> CHR '':''" by (auto split: if_splits)
  from "6.prems" sk q ss sk2 c obtain v0 r3 where pv: "parse_value fuel r2 = Ok v0 r3"
    by (cases "parse_value fuel r2") auto
  have l3: "length r3 < length r2"
    using "6.IH"(1) [OF sk q _ _ sk2 c pv] ss by simp
  from "6.prems" sk q ss sk2 c pv obtain e r4 where sk3: "skip_ws r3 = e # r4"
    by (cases "skip_ws r3") auto
  note l4 = skip_ws_ConsD [OF sk3]
  show ?case
  proof (cases "e = CHR '',''")
    case True
    with "6.prems" sk q ss sk2 c pv sk3 obtain y where pm: "parse_members fuel r4 = Ok y r"
      by (auto dest: cons_member_OkD)
    have "length r < length r4"
      using "6.IH"(2) [OF sk q _ _ sk2 c pv sk3 True pm] ss by simp
    with l0 l1 l2 l3 l4 show ?thesis by simp
  next
    case False
    with "6.prems" sk q ss sk2 c pv sk3 have "r = r4" by (auto split: if_splits)
    with l0 l1 l2 l3 l4 show ?thesis by simp
  qed
qed

text \<open>So fuel above twice the length of the text never runs out, whatever the text.\<close>

lemma parse_fuel:
  "2 * length s < f \<Longrightarrow> parse_value f s \<noteq> OutOfFuel"
  "2 * length s + 1 < f \<Longrightarrow> parse_elements f s \<noteq> OutOfFuel"
  "2 * length s + 1 < f \<Longrightarrow> parse_members f s \<noteq> OutOfFuel"
proof (induction f s and f s and f s
    rule: parse_value_parse_elements_parse_members.induct)
  case (1 s)
  then show ?case by simp
next
  case (2 fuel s)
  show ?case
  proof (cases "skip_ws s")
    case Nil
    then show ?thesis by simp
  next
    case (Cons c cs)
    note len = skip_ws_ConsD [OF Cons]
    consider (arr) "c = CHR ''[''" | (obj) "c \<noteq> CHR ''[''" "c = CHR ''{''"
      | (other) "c \<noteq> CHR ''[''" "c \<noteq> CHR ''{''"
      by blast
    then show ?thesis
    proof cases
      case arr
      show ?thesis
      proof (cases "skip_ws cs")
        case Nil
        with Cons arr show ?thesis by simp
      next
        case sk2: (Cons d ds)
        show ?thesis
        proof (cases "d = CHR '']''")
          case True
          with Cons arr sk2 show ?thesis by simp
        next
          case False
          have "2 * length (d # ds) + 1 < fuel"
            using "2.prems" len skip_ws_length [of cs] sk2 by simp
          from "2.IH"(1) [OF Cons arr sk2 False this] Cons arr sk2 False
          show ?thesis by simp
        qed
      qed
    next
      case obj
      show ?thesis
      proof (cases "skip_ws cs")
        case Nil
        with Cons obj show ?thesis by simp
      next
        case sk2: (Cons d ds)
        show ?thesis
        proof (cases "d = CHR ''}''")
          case True
          with Cons obj sk2 show ?thesis by simp
        next
          case False
          have "2 * length (d # ds) + 1 < fuel"
            using "2.prems" len skip_ws_length [of cs] sk2 by simp
          from "2.IH"(2) [OF Cons obj sk2 False this] Cons obj sk2 False
          show ?thesis by simp
        qed
      qed
    next
      case other
      with Cons show ?thesis by simp
    qed
  qed
next
  case (3 s)
  then show ?case by simp
next
  case (4 fuel s)
  have pv: "parse_value fuel s \<noteq> OutOfFuel"
    using "4.prems" by (intro "4.IH"(1)) simp
  show ?case
  proof (cases "parse_value fuel s")
    case (Ok v0 r0)
    note l0 = parse_shorter(1) [OF Ok]
    show ?thesis
    proof (cases "skip_ws r0")
      case Nil
      with Ok show ?thesis by simp
    next
      case (Cons c cs)
      note l1 = skip_ws_ConsD [OF Cons]
      show ?thesis
      proof (cases "c = CHR '',''")
        case True
        have "2 * length cs + 1 < fuel" using "4.prems" l0 l1 by simp
        from "4.IH"(2) [OF Ok Cons True this] Ok Cons True show ?thesis by simp
      next
        case False
        with Ok Cons show ?thesis by simp
      qed
    qed
  next
    case Bad
    then show ?thesis by simp
  next
    case OutOfFuel
    with pv show ?thesis by simp
  qed
next
  case (5 s)
  then show ?case by simp
next
  case (6 fuel s)
  show ?case
  proof (cases "skip_ws s")
    case Nil
    then show ?thesis by simp
  next
    case (Cons q cs)
    note l0 = skip_ws_ConsD [OF Cons]
    show ?thesis
    proof (cases "q \<noteq> CHR 0x22")
      case True
      with Cons show ?thesis by simp
    next
      case q: False
      show ?thesis
      proof (cases "scan_string cs")
        case None
        with Cons q show ?thesis by simp
      next
        case (Some kr)
        obtain k r1 where kr: "kr = (k, r1)" by (cases kr)
        note ss = Some [unfolded kr]
        note l1 = scan_string_shorter [OF ss]
        show ?thesis
        proof (cases "skip_ws r1")
          case Nil
          with Cons q ss show ?thesis by simp
        next
          case sk2: (Cons c r2)
          note l2 = skip_ws_ConsD [OF sk2]
          show ?thesis
          proof (cases "c \<noteq> CHR '':''")
            case True
            with Cons q ss sk2 show ?thesis by simp
          next
            case c: False
            have "2 * length r2 < fuel" using "6.prems" l0 l1 l2 by simp
            then have pv: "parse_value fuel r2 \<noteq> OutOfFuel"
              using "6.IH"(1) [OF Cons q _ _ sk2 c] ss by simp
            show ?thesis
            proof (cases "parse_value fuel r2")
              case (Ok v0 r3)
              note l3 = parse_shorter(1) [OF Ok]
              show ?thesis
              proof (cases "skip_ws r3")
                case Nil
                with Cons q ss sk2 c Ok show ?thesis by simp
              next
                case sk3: (Cons e r4)
                note l4 = skip_ws_ConsD [OF sk3]
                show ?thesis
                proof (cases "e = CHR '',''")
                  case True
                  have "2 * length r4 + 1 < fuel" using "6.prems" l0 l1 l2 l3 l4 by simp
                  then have "parse_members fuel r4 \<noteq> OutOfFuel"
                    using "6.IH"(2) [OF Cons q _ _ sk2 c Ok sk3 True] ss by simp
                  with Cons q ss sk2 c Ok sk3 True show ?thesis by simp
                next
                  case False
                  with Cons q ss sk2 c Ok sk3 show ?thesis by simp
                qed
              qed
            next
              case Bad
              with Cons q ss sk2 c show ?thesis by simp
            next
              case OutOfFuel
              with pv show ?thesis by simp
            qed
          qed
        qed
      qed
    qed
  qed
qed

lemma JSON_parse_value_fuel: "parse_value (2 * length s + 2) s \<noteq> OutOfFuel"
  by (rule parse_fuel(1)) simp

subsection \<open>Collections\<close>

lemma field_representable:
  "string_field (Some v) = Some s \<Longrightarrow> representable v"
  "bool_field (Some v) = Some b \<Longrightarrow> representable v"
  "number_field (Some v) = Some n \<Longrightarrow> representable v"
  "optional_string_field (Some v) = Some so \<Longrightarrow> representable v"
  "optional_bool_field (Some v) = Some bo \<Longrightarrow> representable v"
  by (cases v; simp add: string_field_def bool_field_def number_field_def
        optional_string_field_def optional_bool_field_def split: if_splits)+

lemma representable_membersI:
  "\<forall>kv \<in> set kvs. representable (snd kv) \<Longrightarrow> representable_members kvs"
  by (induction kvs) auto

lemma representable_elementsI:
  "(\<And>v. v \<in> set vs \<Longrightarrow> representable v) \<Longrightarrow> representable_elements vs"
  by (induction vs) auto

lemma todo_of_fields_representable:
  assumes "todo_of_fields kvs = Some t" and "map_of kvs k = Some v" and "k \<in> set todo_keys"
  shows "representable v"
proof -
  from assms(1) obtain i tx c n d tm nf where
    f: "string_field (map_of kvs ''id'') = Some i" "string_field (map_of kvs ''text'') = Some tx"
       "bool_field (map_of kvs ''completed'') = Some c" "number_field (map_of kvs ''createdAt'') = Some n"
       "optional_string_field (map_of kvs ''dueDate'') = Some d"
       "optional_string_field (map_of kvs ''dueTime'') = Some tm"
       "optional_bool_field (map_of kvs ''notified'') = Some nf"
    by (auto simp: todo_of_fields_def split: option.splits)
  from assms(3) consider "k = ''id''" | "k = ''text''" | "k = ''completed''" | "k = ''createdAt''"
    | "k = ''dueDate''" | "k = ''dueTime''" | "k = ''notified''"
    unfolding todo_keys_def by fastforce
  then show ?thesis
  proof cases
    case 1
    with f(1) assms(2) have "string_field (Some v) = Some i" by simp
    then show ?thesis by (rule field_representable)
  next
    case 2
    with f(2) assms(2) have "string_field (Some v) = Some tx" by simp
    then show ?thesis by (rule field_representable)
  next
    case 3
    with f(3) assms(2) have "bool_field (Some v) = Some c" by simp
    then show ?thesis by (rule field_representable)
  next
    case 4
    with f(4) assms(2) have "number_field (Some v) = Some n" by simp
    then show ?thesis by (rule field_representable)
  next
    case 5
    with f(5) assms(2) have "optional_string_field (Some v) = Some d" by simp
    then show ?thesis by (rule field_representable)
  next
    case 6
    with f(6) assms(2) have "optional_string_field (Some v) = Some tm" by simp
    then show ?thesis by (rule field_representable)
  next
    case 7
    with f(7) assms(2) have "optional_bool_field (Some v) = Some nf" by simp
    then show ?thesis by (rule field_representable)
  qed
qed

lemma todo_of_json_representable:
  assumes "todo_of_json v = Some t"
  shows "representable v"
proof -
  from assms obtain kvs where v: "v = JObject kvs" and d: "distinct (map fst kvs)"
    and k: "list_all (\<lambda>kv. fst kv \<in> set todo_keys) kvs" and t: "todo_of_fields kvs = Some t"
    by (cases v) (auto simp: todo_of_json_def split: if_splits)
  have "representable_members kvs"
  proof (rule representable_membersI, rule ballI)
    fix kv
    assume m: "kv \<in> set kvs"
    obtain key val where kv: "kv = (key, val)" by (cases kv)
    have "map_of kvs key = Some val" using d m kv by simp
    moreover have "key \<in> set todo_keys" using k m kv by (auto simp: list_all_iff)
    ultimately have "representable val" using t todo_of_fields_representable by blast
    then show "representable (snd kv)" by (simp add: kv)
  qed
  with v show ?thesis by simp
qed

lemma those_SomeD: "those xs = Some ys \<Longrightarrow> x \<in> set xs \<Longrightarrow> \<exists>y. x = Some y"
  by (induction xs arbitrary: ys) (auto split: option.splits)

lemma todos_of_json_representable:
  assumes "todos_of_json v = Some ts"
  shows "representable v"
proof -
  from assms obtain vs where v: "v = JArray vs" and t: "those (map todo_of_json vs) = Some ts"
    by (cases v) (auto simp: todos_of_json_def)
  have "representable_elements vs"
  proof (rule representable_elementsI)
    fix x
    assume "x \<in> set vs"
    then have "todo_of_json x \<in> set (map todo_of_json vs)" by simp
    from those_SomeD [OF t this] obtain y where "todo_of_json x = Some y" by blast
    then show "representable x" by (rule todo_of_json_representable)
  qed
  with v show ?thesis by simp
qed

lemma stringify_not_Nil: "JSON_stringify_value v \<noteq> []"
  using stringify_head [of v] by auto

text \<open>
  Every collection whose creation times a JavaScript number holds exactly is the reading
  of a value: the one that lists each todo's keys in the order of \<open>addTodo\<close>.
\<close>

lemma todo_of_json_of_todo:
  assumes "\<bar>createdAt t\<bar> \<le> 9007199254740992"
  shows "todo_of_json (json_of_todo t) = Some t"
  using assms
  by (cases "dueDate t"; cases "dueTime t"; cases "notified t")
     (simp_all add: todo_of_json_def json_of_todo_def todo_keys_def todo_of_fields_def
        string_field_def bool_field_def number_field_def optional_string_field_def
        optional_bool_field_def)

lemma todos_of_json_of_todos:
  "list_all (\<lambda>t. \<bar>createdAt t\<bar> \<le> 9007199254740992) ts \<Longrightarrow>
   todos_of_json (JArray (map json_of_todo ts)) = Some ts"
  by (induction ts) (simp_all add: todos_of_json_def todo_of_json_of_todo)

lemma rent_text: "JSON_stringify_todos [rent] = rent_json"
  by (simp add: JSON_stringify_todos_def json_of_todo_def rent_def rent_json_def quote_string_def
      quote_char_def number_text_def digits.simps char_of_eq_iff)

text \<open>
  C4. Let the collection of a mounted component be the reading of a JSON value \<open>v\<close>, let
  \<open>JSON.stringify\<close> print \<open>v\<close>, and let \<open>JSON.parse\<close> give, for a text whose value reads
  as a collection, that collection. Then the text parses back to \<open>v\<close>, the save effect
  writes it to the slot, and the load effect of the next mount over this slot ends with
  the same collection and leaves the slot as it is. Every collection whose creation times
  are at most \<open>2^53\<close> in size is the reading of such a value.
\<close>

theorem save_then_load_roundtrip:
  assumes "isMounted a"
    and "todos_of_json v = Some (todos a)"
    and "JSON_stringify (todos a) = JSON_stringify_value v"
    and "\<forall>s w ts. JSON_parse_value s = Inr (Some w) \<and> todos_of_json w = Some ts
            \<longrightarrow> JSON_parse s = Inr ts"
  shows "JSON_parse_value (JSON_stringify_value v) = Inr (Some v)
       \<and> slot (save_effect JSON_stringify a) = Some (JSON_stringify_value v)
       \<and> todos (load_effect JSON_parse (initial (slot (save_effect JSON_stringify a)))) = todos a
       \<and> slot (load_effect JSON_parse (initial (slot (save_effect JSON_stringify a))))
           = slot (save_effect JSON_stringify a)"
proof -
  have r: "JSON_parse_value (JSON_stringify_value v) = Inr (Some v)"
    using todos_of_json_representable [OF assms(2)] by (rule JSON_roundtrip)
  have p: "JSON_parse (JSON_stringify_value v) = Inr (todos a)"
    using assms(4) r assms(2) by blast
  have s: "slot (save_effect JSON_stringify a) = Some (JSON_stringify_value v)"
    using assms(1,3) by (simp add: save_effect_def)
  have l: "load_effect JSON_parse (initial (Some (JSON_stringify_value v)))
           = \<lparr>todos = todos a, isMounted = True, slot = Some (JSON_stringify_value v)\<rparr>"
    using p stringify_not_Nil [of v] by (simp add: load_effect_def initial_def)
  from r s l show ?thesis by simp
qed

theorem save_then_load_roundtrip_witness:
  "isMounted \<lparr>todos = [rent], isMounted = True, slot = None\<rparr>
   \<and> todos_of_json (JArray [json_of_todo rent]) = Some [rent]
   \<and> JSON_stringify_todos [rent] = rent_json
   \<and> JSON_parse_value rent_json = Inr (Some (JArray [json_of_todo rent]))
   \<and> slot (save_effect JSON_stringify_todos \<lparr>todos = [rent], isMounted = True, slot = None\<rparr>)
       = Some rent_json
   \<and> todos (load_effect JSON_parse_todos (initial (Some rent_json))) = [rent]"
proof -
  let ?a = "\<lparr>todos = [rent], isMounted = True, slot = None\<rparr>"
  have m: "isMounted ?a" by simp
  have r: "todos_of_json (JArray [json_of_todo rent]) = Some (todos ?a)"
    using todos_of_json_of_todos [of "[rent]"] by (simp add: rent_def)
  have s: "JSON_stringify_todos (todos ?a) = JSON_stringify_value (JArray [json_of_todo rent])"
    by (simp add: JSON_stringify_todos_def)
  have p: "\<forall>s w ts. JSON_parse_value s = Inr (Some w) \<and> todos_of_json w = Some ts
             \<longrightarrow> JSON_parse_todos s = Inr ts"
    by (simp add: JSON_parse_todos_def)
  have t: "JSON_stringify_value (JArray [json_of_todo rent]) = rent_json"
    using rent_text by (simp add: JSON_stringify_todos_def)
  show ?thesis
    using m r t
      save_then_load_roundtrip
        [where JSON_stringify = JSON_stringify_todos and JSON_parse = JSON_parse_todos,
         OF m r s p]
    by (simp add: rent_text save_effect_def)
qed

end
